theory Spec2Isabelle
  imports Complex_Main "HOL-Library.Product_Lexorder" "HOL-Library.Multiset" "HOL-Library.AList"
begin

section \<open>Tree-structured Parzen Estimator (hyperopt/tpe.py)\<close>

text \<open>
  A shallow embedding of the numeric core of \<^verbatim>\<open>src/hyperopt/tpe.py\<close>.
  Python floats are modelled by \<^typ>\<open>real\<close> (no rounding); numpy arrays are lists.
  Python exceptions are values of \<open>pyerror\<close>, returned as \<open>Inl\<close>.
\<close>

subsection \<open>Exceptions and floating-point division\<close>

datatype pyerror =
    TypeError
  | ValueError string
  | AssertionError
  | IndexError
  | ZeroDivisionError
  | NotImplementedError
  | UnboundLocalError string

text \<open>
  numpy's float division does not raise on a zero divisor: it yields \<open>nan\<close> for \<open>0/0\<close>
  and an infinity otherwise.  The result of a division is therefore an \<open>npfloat\<close>.
  (The sign of a floating-point zero is not modelled.)
\<close>

datatype npfloat = Finite real | PosInf | NegInf | NaN

definition np_true_divide :: "real \<Rightarrow> real \<Rightarrow> npfloat" where
  "np_true_divide x y =
     (if y \<noteq> 0 then Finite (x / y)
      else if x = 0 then NaN
      else if 0 < x then PosInf else NegInf)"

text \<open>\<^verbatim>\<open>EPS = 1e-12\<close> (line 28).\<close>

definition EPS :: real where
  "EPS = 1 / 10 ^ 12"

subsection \<open>numpy helpers used by the estimator\<close>

text \<open>
  \<^verbatim>\<open>np.argsort\<close>: a permutation of the indices that sorts the values.  numpy's default
  sort is not stable; the model fixes the stable choice among equal values.
\<close>

definition argsort :: "real list \<Rightarrow> nat list" where
  "argsort xs = sort_key (\<lambda>i. xs ! i) [0..<length xs]"

text \<open>\<^verbatim>\<open>a[order]\<close> for an index array \<open>order\<close>.\<close>

definition fancy_index :: "'a list \<Rightarrow> nat list \<Rightarrow> 'a list" where
  "fancy_index a order = map (\<lambda>i. a ! i) order"

text \<open>\<^verbatim>\<open>a[order] = vals\<close>: position \<open>order[j]\<close> receives \<open>vals[j]\<close>, in turn.\<close>

definition fancy_assign :: "'a list \<Rightarrow> nat list \<Rightarrow> 'a list \<Rightarrow> 'a list" where
  "fancy_assign a order vals = fold (\<lambda>(i, v) b. b[i := v]) (zip order vals) a"

text \<open>\<^verbatim>\<open>np.clip(a, a_min, a_max)\<close> is \<^verbatim>\<open>minimum(a_max, maximum(a, a_min))\<close>.\<close>

definition np_clip :: "real \<Rightarrow> real \<Rightarrow> real \<Rightarrow> real" where
  "np_clip a a_min a_max = min a_max (max a a_min)"

subsection \<open>The adaptive Parzen estimator (lines 267-345)\<close>

text \<open>
  Lines 296-310, on the sorted observations \<open>s\<close> (at least two of them):
  \<^verbatim>\<open>sigma = zeros_like(mus); sigma[1:-1] = maximum(mus[1:-1] - mus[0:-2], mus[2:] - mus[1:-1])\<close>,
  then \<^verbatim>\<open>sigma[0] = lsigma\<close> and \<^verbatim>\<open>sigma[-1] = usigma\<close>.
\<close>

definition neighbour_sigma :: "real list \<Rightarrow> real list" where
  "neighbour_sigma s =
     (let n = length s;
          inner = butlast (tl s);
          sigma = [0] @ map2 max (map2 (-) inner (butlast (butlast s)))
                                 (map2 (-) (drop 2 s) inner) @ [0];
          lsigma = (if n > 2 then s ! 2 - s ! 0 else s ! 1 - s ! 0);
          usigma = (if n > 2 then s ! (n - 1) - s ! (n - 3) else s ! (n - 1) - s ! (n - 2));
          sigma = sigma[0 := lsigma]
      in sigma[n - 1 := usigma])"

text \<open>
  Lines 289-323: the component centres and raw widths, the prior appended last.
  For two or more observations the arrays are sorted, the widths computed, and both are
  put back into the original order; line 319 asserts that the centres are the input again.
\<close>

definition parzen_components ::
  "real list \<Rightarrow> real \<Rightarrow> real \<Rightarrow> pyerror + (real list \<times> real list)" where
  "parzen_components mus_orig prior_mu prior_sigma =
     (if length mus_orig = 0 then Inr ([prior_mu], [prior_sigma])
      else if length mus_orig = 1 then
        Inr ([mus_orig ! 0, prior_mu], [prior_sigma * 0.5, prior_sigma])
      else
        (let order = argsort mus_orig;
             mus = fancy_index mus_orig order;
             sigma = neighbour_sigma mus;
             mus = fancy_assign mus order mus;
             sigma = fancy_assign sigma order sigma
         in if mus_orig \<noteq> mus then Inl AssertionError
            else Inr (mus @ [prior_mu], sigma @ [prior_sigma])))"

text \<open>
  Lines 332-337: \<^verbatim>\<open>weights = 1 + arange(len(mus))\<close>, \<^verbatim>\<open>weights[-1] -= 1\<close>,
  \<^verbatim>\<open>weights[-1] *= prior_weight\<close>, \<^verbatim>\<open>weights = weights / weights.sum()\<close>.
  Here \<open>m\<close> is the number of components, the prior included (so \<open>m \<ge> 1\<close>).
\<close>

definition parzen_weights :: "nat \<Rightarrow> real \<Rightarrow> npfloat list" where
  "parzen_weights m prior_weight =
     (let weights = map (\<lambda>i. 1 + real i) [0..<m];
          weights = weights[m - 1 := weights ! (m - 1) - 1];
          weights = weights[m - 1 := weights ! (m - 1) * prior_weight]
      in map (\<lambda>w. np_true_divide w (sum_list weights)) weights)"

text \<open>
  \<^verbatim>\<open>adaptive_parzen_normal(mus, prior_weight, prior_mu, prior_sigma)\<close> for a vector \<open>mus\<close>
  of floats and scalar priors; returns \<open>(weights, mus, sigma)\<close>.
\<close>

definition adaptive_parzen_normal ::
  "real list \<Rightarrow> real \<Rightarrow> real \<Rightarrow> real \<Rightarrow> pyerror + (npfloat list \<times> real list \<times> real list)" where
  "adaptive_parzen_normal mus_orig prior_weight prior_mu prior_sigma =
     (case parzen_components mus_orig prior_mu prior_sigma of
        Inl e \<Rightarrow> Inl e
      | Inr (mus, sigma) \<Rightarrow>
          (let maxsigma = prior_sigma;
               minsigma = prior_sigma / sqrt (1 + real (length mus));
               sigma = map (\<lambda>s. np_clip s minsigma maxsigma) sigma;
               weights = parzen_weights (length mus) prior_weight
           in Inr (weights, mus, sigma)))"


subsection \<open>Adaptive Parzen samplers (lines 355-423)\<close>

text \<open>
  Each adapter turns the observations of one hyperparameter and its prior into the call of
  a mixture sampler.  The call is stochastic; what the adapter fixes are the arguments of
  the call, which is what a \<open>posterior\<close> node records: the mixture
  \<open>(weights, mus, sigmas)\<close> and the keyword arguments \<open>low\<close>, \<open>high\<close>, \<open>q\<close>
  (\<open>None\<close> when not passed).
\<close>

datatype posterior =
    GMM1_node "npfloat list" "real list" "real list" "real option" "real option" "real option"
  | LGMM1_node "npfloat list" "real list" "real list" "real option" "real option" "real option"

text \<open>\<^verbatim>\<open>scope.log(obs)\<close>: the element-wise natural logarithm.\<close>

definition scope_log :: "real list \<Rightarrow> real list" where
  "scope_log obs = map ln obs"

definition ap_uniform_sampler :: "real list \<Rightarrow> real \<Rightarrow> real \<Rightarrow> real \<Rightarrow> pyerror + posterior" where
  "ap_uniform_sampler obs prior_weight low high =
     (let prior_mu = 0.5 * (high + low);
          prior_sigma = 1.0 * (high - low)
      in case adaptive_parzen_normal obs prior_weight prior_mu prior_sigma of
           Inl e \<Rightarrow> Inl e
         | Inr (weights, mus, sigmas) \<Rightarrow>
             Inr (GMM1_node weights mus sigmas (Some low) (Some high) None))"

definition ap_quniform_sampler ::
  "real list \<Rightarrow> real \<Rightarrow> real \<Rightarrow> real \<Rightarrow> real \<Rightarrow> pyerror + posterior" where
  "ap_quniform_sampler obs prior_weight low high q =
     (let prior_mu = 0.5 * (high + low);
          prior_sigma = 1.0 * (high - low)
      in case adaptive_parzen_normal obs prior_weight prior_mu prior_sigma of
           Inl e \<Rightarrow> Inl e
         | Inr (weights, mus, sigmas) \<Rightarrow>
             Inr (GMM1_node weights mus sigmas (Some low) (Some high) (Some q)))"

definition ap_loguniform_sampler ::
  "real list \<Rightarrow> real \<Rightarrow> real \<Rightarrow> real \<Rightarrow> pyerror + posterior" where
  "ap_loguniform_sampler obs prior_weight low high =
     (let prior_mu = 0.5 * (high + low);
          prior_sigma = 1.0 * (high - low)
      in case adaptive_parzen_normal (scope_log obs) prior_weight prior_mu prior_sigma of
           Inl e \<Rightarrow> Inl e
         | Inr (weights, mus, sigmas) \<Rightarrow>
             Inr (LGMM1_node weights mus sigmas (Some low) (Some high) None))"

definition ap_qloguniform_sampler ::
  "real list \<Rightarrow> real \<Rightarrow> real \<Rightarrow> real \<Rightarrow> real \<Rightarrow> pyerror + posterior" where
  "ap_qloguniform_sampler obs prior_weight low high q =
     (let prior_mu = 0.5 * (high + low);
          prior_sigma = 1.0 * (high - low)
      in case adaptive_parzen_normal obs prior_weight prior_mu prior_sigma of
           Inl e \<Rightarrow> Inl e
         | Inr (weights, mus, sigmas) \<Rightarrow>
             Inr (LGMM1_node weights mus sigmas (Some low) (Some high) (Some q)))"

definition ap_normal_sampler :: "real list \<Rightarrow> real \<Rightarrow> real \<Rightarrow> real \<Rightarrow> pyerror + posterior" where
  "ap_normal_sampler obs prior_weight mu sigma =
     (case adaptive_parzen_normal obs prior_weight mu sigma of
        Inl e \<Rightarrow> Inl e
      | Inr (weights, mus, sigmas) \<Rightarrow> Inr (GMM1_node weights mus sigmas None None None))"

definition ap_qnormal_sampler ::
  "real list \<Rightarrow> real \<Rightarrow> real \<Rightarrow> real \<Rightarrow> real \<Rightarrow> pyerror + posterior" where
  "ap_qnormal_sampler obs prior_weight mu sigma q =
     (case adaptive_parzen_normal obs prior_weight mu sigma of
        Inl e \<Rightarrow> Inl e
      | Inr (weights, mus, sigmas) \<Rightarrow> Inr (GMM1_node weights mus sigmas None None (Some q)))"

definition ap_loglognormal_sampler ::
  "real list \<Rightarrow> real \<Rightarrow> real \<Rightarrow> real \<Rightarrow> pyerror + posterior" where
  "ap_loglognormal_sampler obs prior_weight mu sigma =
     (case adaptive_parzen_normal (scope_log obs) prior_weight mu sigma of
        Inl e \<Rightarrow> Inl e
      | Inr (weights, mus, sigmas) \<Rightarrow> Inr (LGMM1_node weights mus sigmas None None None))"

definition ap_qlognormal_sampler ::
  "real list \<Rightarrow> real \<Rightarrow> real \<Rightarrow> real \<Rightarrow> real \<Rightarrow> pyerror + posterior" where
  "ap_qlognormal_sampler obs prior_weight mu sigma q =
     (case adaptive_parzen_normal (scope_log obs) prior_weight mu sigma of
        Inl e \<Rightarrow> Inl e
      | Inr (weights, mus, sigmas) \<Rightarrow> Inr (LGMM1_node weights mus sigmas None None (Some q)))"

subsection \<open>The invariants required of the estimator's output\<close>

text \<open>
  numpy's sum of an array: \<open>nan\<close> and infinities propagate.
\<close>

fun np_add :: "npfloat \<Rightarrow> npfloat \<Rightarrow> npfloat" where
  "np_add (Finite a) (Finite b) = Finite (a + b)"
| "np_add NaN _ = NaN"
| "np_add _ NaN = NaN"
| "np_add PosInf NegInf = NaN"
| "np_add NegInf PosInf = NaN"
| "np_add PosInf _ = PosInf"
| "np_add _ PosInf = PosInf"
| "np_add NegInf _ = NegInf"
| "np_add _ NegInf = NegInf"

definition np_sum :: "npfloat list \<Rightarrow> npfloat" where
  "np_sum ws = foldr np_add ws (Finite 0)"

text \<open>
  The specification's invariants of the output \<open>(weights, mus, sigmas)\<close> for \<open>n\<close>
  observations, in its words: the weights sum to \<open>1\<close> within \<open>10\<^sup>-\<^sup>1\<^sup>2\<close>, every
  sigma lies in \<open>[prior_sigma / sqrt (n + 2), prior_sigma]\<close>, and \<open>prior_mu\<close> is among
  the means.
\<close>

definition spec_parzen_invariants ::
  "nat \<Rightarrow> real \<Rightarrow> real \<Rightarrow> npfloat list \<times> real list \<times> real list \<Rightarrow> bool" where
  "spec_parzen_invariants n prior_mu prior_sigma out =
     (case out of (weights, mus, sigmas) \<Rightarrow>
        (case np_sum weights of Finite s \<Rightarrow> \<bar>s - 1\<bar> \<le> 1 / 10 ^ 12 | _ \<Rightarrow> False)
        \<and> list_all (\<lambda>s. prior_sigma / sqrt (real n + 2) \<le> s \<and> s \<le> prior_sigma) sigmas
        \<and> prior_mu \<in> set mus)"

subsection \<open>The trial filter (lines 441-468)\<close>

text \<open>
  Python's slices \<^verbatim>\<open>a[:k]\<close> and \<^verbatim>\<open>a[k:]\<close> for an integer \<open>k\<close>; a negative \<open>k\<close> counts
  from the end.
\<close>

definition py_take :: "int \<Rightarrow> 'a list \<Rightarrow> 'a list" where
  "py_take k xs = (if 0 \<le> k then take (nat k) xs else take (length xs - nat (- k)) xs)"

definition py_drop :: "int \<Rightarrow> 'a list \<Rightarrow> 'a list" where
  "py_drop k xs = (if 0 \<le> k then drop (nat k) xs else drop (length xs - nat (- k)) xs)"

text \<open>\<^verbatim>\<open>a[idx]\<close> where an index may be out of range: numpy raises \<open>IndexError\<close>.\<close>

definition fancy_index_checked :: "'a list \<Rightarrow> nat list \<Rightarrow> pyerror + 'a list" where
  "fancy_index_checked a idx =
     (if list_ex (\<lambda>j. length a \<le> j) idx then Inl IndexError else Inr (fancy_index a idx))"

text \<open>
  Python floats are IEEE-754 binary64 numbers.  Line 451 takes the ceiling of a product of
  floats, and the rounding of that product can move it across an integer, so the rounding
  is part of the model here: \<open>round_double x\<close> is the number with a significand of 53 bits
  nearest to \<open>x\<close>, ties going to the even significand.  The exponent range is left out
  (no overflow; a subnormal product of line 451 is positive and below 1 with or without
  it, so its ceiling is the same).
\<close>

definition round_half_even :: "real \<Rightarrow> int" where
  "round_half_even m =
     (let f = \<lfloor>m\<rfloor>
      in if m - of_int f < 1 / 2 then f
         else if 1 / 2 < m - of_int f then f + 1
         else if even f then f else f + 1)"

definition round_double :: "real \<Rightarrow> real" where
  "round_double x =
     (if x = 0 then 0
      else
        (let e = \<lfloor>log 2 \<bar>x\<bar>\<rfloor> - 52;
             ulp = 2 powr (of_int e)
         in of_int (round_half_even (x / ulp)) * ulp))"

text \<open>
  Line 451: \<^verbatim>\<open>n_below = int(np.ceil(gamma * len(l_vals)))\<close>.  \<open>gamma\<close> is the float the caller
  passes (a double); the length is converted to a double, the product is rounded to a
  double, and the ceiling of a double is exact.
\<close>

definition n_below_of :: "real \<Rightarrow> nat \<Rightarrow> int" where
  "n_below_of gamma N = \<lceil>round_double (gamma * round_double (real N))\<rceil>"

text \<open>
  Lines 451-459: the tids to keep.  The tids of the \<open>n_below\<close> smallest losses are the
  below set, the others the above set.
\<close>

definition keep_idxs :: "int list \<Rightarrow> real list \<Rightarrow> real \<Rightarrow> string \<Rightarrow> pyerror + int set" where
  "keep_idxs l_idxs l_vals gamma above_or_below =
     (let n_below = n_below_of gamma (length l_vals);
          l_order = argsort l_vals
      in if above_or_below = ''above_gamma'' then
           map_sum id set (fancy_index_checked l_idxs (py_drop n_below l_order))
         else if above_or_below = ''below_gamma'' then
           map_sum id set (fancy_index_checked l_idxs (py_take n_below l_order))
         else Inl (ValueError above_or_below))"

text \<open>
  Lines 465-466: the \<open>(tid, value)\<close> pairs of the kept tids, sorted as Python sorts tuples
  (by tid, then by value).
\<close>

definition kept_trials :: "int list \<Rightarrow> real list \<Rightarrow> int set \<Rightarrow> (int \<times> real) list" where
  "kept_trials o_idxs o_vals keep =
     (let rval_iv = filter (\<lambda>(i, v). i \<in> keep) (zip o_idxs o_vals)
      in sort rval_iv)"

text \<open>Lines 467-468: the values of the sorted pairs.\<close>

definition ap_filter_trials ::
  "int list \<Rightarrow> real list \<Rightarrow> int list \<Rightarrow> real list \<Rightarrow> real \<Rightarrow> string \<Rightarrow> pyerror + real list" where
  "ap_filter_trials o_idxs o_vals l_idxs l_vals gamma above_or_below =
     (case keep_idxs l_idxs l_vals gamma above_or_below of
        Inl e \<Rightarrow> Inl e
      | Inr keep \<Rightarrow> Inr (map snd (kept_trials o_idxs o_vals keep)))"

subsection \<open>Trial deduplication (suggest1, lines 840-859)\<close>

text \<open>
  What \<^verbatim>\<open>suggest1\<close> reads of a trial document: \<^verbatim>\<open>doc['tid']\<close>,
  \<^verbatim>\<open>doc['misc'].get('from_tid')\<close>, \<^verbatim>\<open>doc['result']['status']\<close>, and the number
  \<^verbatim>\<open>bandit.loss(doc['result'], doc['spec'])\<close>.
\<close>

record doc =
  tid :: int
  from_tid :: "int option"
  status :: string
  loss :: real

text \<open>
  Modelled from the spec: the constant \<^verbatim>\<open>STATUS_OK\<close> is imported from
  \<^verbatim>\<open>hyperopt/base.py\<close>, which is not among the sources; the specification calls it the
  status OK.  Only equality with it is used.
\<close>

definition STATUS_OK :: string where
  "STATUS_OK = ''ok''"

text \<open>Line 851: \<^verbatim>\<open>tid = doc['misc'].get('from_tid', doc['tid'])\<close>.\<close>

definition doc_group :: "doc \<Rightarrow> int" where
  "doc_group d = (case from_tid d of Some t \<Rightarrow> t | None \<Rightarrow> tid d)"

text \<open>
  Lines 848-856, the body of the loop.  The two dictionaries \<open>best_docs\<close> and
  \<open>best_docs_loss\<close> are association lists; \<open>cur\<close> is the value of
  \<^verbatim>\<open>best_docs_loss[tid]\<close> after \<^verbatim>\<open>best_docs_loss.setdefault(tid, loss)\<close>.
\<close>

definition best_step ::
  "doc \<Rightarrow> (int \<times> doc) list \<times> (int \<times> real) list \<Rightarrow> (int \<times> doc) list \<times> (int \<times> real) list" where
  "best_step d acc =
     (case acc of (best_docs, best_docs_loss) \<Rightarrow>
        if status d \<noteq> STATUS_OK then (best_docs, best_docs_loss)
        else
          (let t = doc_group d;
               l = loss d;
               (best_docs_loss, cur) =
                 (case map_of best_docs_loss t of
                    None \<Rightarrow> (AList.update t l best_docs_loss, l)
                  | Some c \<Rightarrow> (best_docs_loss, c))
           in if l \<le> cur
              then (AList.update t d best_docs, AList.update t l best_docs_loss)
              else (best_docs, best_docs_loss)))"

text \<open>Lines 845-856: the loop over \<^verbatim>\<open>trials.trials\<close>, from two empty dictionaries.\<close>

definition best_docs_of :: "doc list \<Rightarrow> (int \<times> doc) list \<times> (int \<times> real) list" where
  "best_docs_of trials = fold best_step trials ([], [])"

text \<open>
  Lines 840-859: the assertion that the tids are unique, the loop, and the documents of
  \<open>best_docs\<close> in ascending order of their key.
\<close>

definition suggest1_docs :: "doc list \<Rightarrow> pyerror + doc list" where
  "suggest1_docs trials =
     (if \<not> distinct (map tid trials) then Inl AssertionError
      else
        (case best_docs_of trials of (best_docs, best_docs_loss) \<Rightarrow>
           Inr (map snd (sort_key fst best_docs))))"

text \<open>
  The invariant of the loop after the documents \<open>xs\<close>: a key is present exactly when
  \<open>xs\<close> has an OK document of that group; the document kept for a group is OK, of the
  lowest loss in the group, and the last of \<open>xs\<close> with that loss in the group.
\<close>

definition ok_in_group :: "int \<Rightarrow> doc \<Rightarrow> bool" where
  "ok_in_group g e = (status e = STATUS_OK \<and> doc_group e = g)"

definition best_inv :: "doc list \<Rightarrow> (int \<times> doc) list \<times> (int \<times> real) list \<Rightarrow> bool" where
  "best_inv xs acc = (case acc of (bd, bl) \<Rightarrow>
     distinct (map fst bd) \<and>
     (\<forall>g. (map_of bd g = None) = (\<not> (\<exists>e\<in>set xs. ok_in_group g e))) \<and>
     (\<forall>g. map_of bl g = map_option loss (map_of bd g)) \<and>
     (\<forall>g d. map_of bd g = Some d \<longrightarrow>
        ok_in_group g d \<and> d \<in> set xs \<and>
        (\<forall>e\<in>set xs. ok_in_group g e \<longrightarrow> loss d \<le> loss e) \<and>
        d = last (filter (\<lambda>e. ok_in_group g e \<and> loss e = loss d) xs)))"

subsection \<open>Truncated mixture sampling (GMM1 lines 76-90, LGMM1 lines 199-216)\<close>

text \<open>
  The random generator \<^verbatim>\<open>rng\<close> is numpy's, outside the repository: it is a parameter,
  a pair of operations on a generator state.  \<open>multinomial1 rng weights s\<close> is
  \<^verbatim>\<open>np.argmax(rng.multinomial(1, weights))\<close>, the index of the component drawn, and
  \<open>normal rng loc scale s\<close> is \<^verbatim>\<open>rng.normal(loc, scale)\<close>, a Python float.  Each returns
  the next state as well, or the exception that numpy raises (a \<open>ValueError\<close> for weights
  that are no distribution, for an empty weight vector, or for a negative \<open>scale\<close>).
\<close>

record 's rng_ops =
  multinomial1 :: "real list \<Rightarrow> 's \<Rightarrow> pyerror + nat \<times> 's"
  normal :: "real \<Rightarrow> real \<Rightarrow> 's \<Rightarrow> pyerror + real \<times> 's"

text \<open>\<^verbatim>\<open>float(x)\<close> for an optional number: \<^verbatim>\<open>float(None)\<close> raises \<open>TypeError\<close>.\<close>

definition py_float :: "real option \<Rightarrow> pyerror + real" where
  "py_float x = (case x of None \<Rightarrow> Inl TypeError | Some v \<Rightarrow> Inr v)"

text \<open>
  One pass of the body of the loop of \<^verbatim>\<open>GMM1\<close> (lines 84-88): a component, a draw, the
  rounding to a multiple of \<open>q\<close>, and the test \<^verbatim>\<open>low <= draw < high\<close>.  The result is
  the accepted draw, or \<open>None\<close> for a rejected one.  An exception of the generator
  propagates, and an index outside \<open>mus\<close> or \<open>sigmas\<close> raises \<open>IndexError\<close>.  The draw is a
  Python float and \<open>q\<close> a Python number, so with \<open>q = 0\<close> the division of line 87 raises
  \<open>ZeroDivisionError\<close>.
\<close>

definition GMM1_attempt ::
  "'s rng_ops \<Rightarrow> real list \<Rightarrow> real list \<Rightarrow> real list \<Rightarrow> real \<Rightarrow> real \<Rightarrow> real option \<Rightarrow> 's
     \<Rightarrow> pyerror + (real option \<times> 's)" where
  "GMM1_attempt rng weights mus sigmas low high q s =
     (case multinomial1 rng weights s of
        Inl e \<Rightarrow> Inl e
      | Inr (active, s1) \<Rightarrow>
          if length mus \<le> active \<or> length sigmas \<le> active then Inl IndexError
          else
            (case normal rng (mus ! active) (sigmas ! active) s1 of
               Inl e \<Rightarrow> Inl e
             | Inr (draw, s2) \<Rightarrow>
                 (case q of
                    None \<Rightarrow>
                      if low \<le> draw \<and> draw < high then Inr (Some draw, s2) else Inr (None, s2)
                  | Some qv \<Rightarrow>
                      if qv = 0 then Inl ZeroDivisionError
                      else
                        (let draw = of_int \<lceil>draw / qv\<rceil> * qv
                         in if low \<le> draw \<and> draw < high then Inr (Some draw, s2)
                            else Inr (None, s2)))))"

text \<open>
  Lines 83-89: \<^verbatim>\<open>while len(samples) < n_samples\<close>.  The loop has no other exit, so the
  function is partial: \<open>None\<close> is a run that never returns.
\<close>

partial_function (option) GMM1_loop ::
  "'s rng_ops \<Rightarrow> real list \<Rightarrow> real list \<Rightarrow> real list \<Rightarrow> real \<Rightarrow> real \<Rightarrow> real option \<Rightarrow> nat
     \<Rightarrow> real list \<Rightarrow> 's \<Rightarrow> (pyerror + real list \<times> 's) option" where
  "GMM1_loop rng weights mus sigmas low high q n_samples samples s =
     (if length samples < n_samples then
        (case GMM1_attempt rng weights mus sigmas low high q s of
           Inl e \<Rightarrow> Some (Inl e)
         | Inr (None, s') \<Rightarrow>
             GMM1_loop rng weights mus sigmas low high q n_samples samples s'
         | Inr (Some draw, s') \<Rightarrow>
             GMM1_loop rng weights mus sigmas low high q n_samples (samples @ [draw]) s')
      else Some (Inr (samples, s)))"

text \<open>
  The branch of \<^verbatim>\<open>GMM1\<close> taken when \<open>low\<close> or \<open>high\<close> is given (lines 76-90), after the
  assertion of line 66; \<open>n_samples\<close> is \<^verbatim>\<open>np.prod(size)\<close>.  The branch for
  \<^verbatim>\<open>low is None and high is None\<close> has no loop and is not modelled.
\<close>

definition GMM1_truncated ::
  "'s rng_ops \<Rightarrow> real list \<Rightarrow> real list \<Rightarrow> real list \<Rightarrow> real option \<Rightarrow> real option
     \<Rightarrow> real option \<Rightarrow> nat \<Rightarrow> 's \<Rightarrow> (pyerror + real list \<times> 's) option" where
  "GMM1_truncated rng weights mus sigmas low high q n_samples s =
     (if \<not> (length weights = length mus \<and> length mus = length sigmas)
      then Some (Inl AssertionError)
      else
        (case py_float low of
           Inl e \<Rightarrow> Some (Inl e)
         | Inr low \<Rightarrow>
            (case py_float high of
               Inl e \<Rightarrow> Some (Inl e)
             | Inr high \<Rightarrow>
                 if low \<ge> high then Some (Inl (ValueError ''low >= high''))
                 else GMM1_loop rng weights mus sigmas low high q n_samples [] s)))"

text \<open>
  The same for \<^verbatim>\<open>LGMM1\<close> (lines 209-215): the draw is exponentiated, rounded with
  \<^verbatim>\<open>maximum(ceil(draw / q) * q, q)\<close>, and tested against \<open>exp low\<close> and \<open>exp high\<close>.
  Here the draw divided at line 213 is the result of \<^verbatim>\<open>np.exp\<close>, a numpy float: with
  \<open>q = 0\<close> the division yields an infinity and no exception, the rounded draw is \<open>nan\<close>,
  and the test of line 214 fails.
\<close>

definition LGMM1_attempt ::
  "'s rng_ops \<Rightarrow> real list \<Rightarrow> real list \<Rightarrow> real list \<Rightarrow> real \<Rightarrow> real \<Rightarrow> real option \<Rightarrow> 's
     \<Rightarrow> pyerror + (real option \<times> 's)" where
  "LGMM1_attempt rng weights mus sigmas exp_low exp_high q s =
     (case multinomial1 rng weights s of
        Inl e \<Rightarrow> Inl e
      | Inr (active, s1) \<Rightarrow>
          if length mus \<le> active \<or> length sigmas \<le> active then Inl IndexError
          else
            (case normal rng (mus ! active) (sigmas ! active) s1 of
               Inl e \<Rightarrow> Inl e
             | Inr (draw, s2) \<Rightarrow>
                 (let draw = exp draw
                  in case q of
                    None \<Rightarrow>
                      if exp_low \<le> draw \<and> draw < exp_high then Inr (Some draw, s2)
                      else Inr (None, s2)
                  | Some qv \<Rightarrow>
                      if qv = 0 then Inr (None, s2)
                      else
                        (let draw = max (of_int \<lceil>draw / qv\<rceil> * qv) qv
                         in if exp_low \<le> draw \<and> draw < exp_high then Inr (Some draw, s2)
                            else Inr (None, s2)))))"

partial_function (option) LGMM1_loop ::
  "'s rng_ops \<Rightarrow> real list \<Rightarrow> real list \<Rightarrow> real list \<Rightarrow> real \<Rightarrow> real \<Rightarrow> real option \<Rightarrow> nat
     \<Rightarrow> real list \<Rightarrow> 's \<Rightarrow> (pyerror + real list \<times> 's) option" where
  "LGMM1_loop rng weights mus sigmas exp_low exp_high q n_samples samples s =
     (if length samples < n_samples then
        (case LGMM1_attempt rng weights mus sigmas exp_low exp_high q s of
           Inl e \<Rightarrow> Some (Inl e)
         | Inr (None, s') \<Rightarrow>
             LGMM1_loop rng weights mus sigmas exp_low exp_high q n_samples samples s'
         | Inr (Some draw, s') \<Rightarrow>
             LGMM1_loop rng weights mus sigmas exp_low exp_high q n_samples (samples @ [draw]) s')
      else Some (Inr (samples, s)))"

text \<open>Lines 199-216; \<^verbatim>\<open>LGMM1\<close> asserts nothing about the lengths.\<close>

definition LGMM1_truncated ::
  "'s rng_ops \<Rightarrow> real list \<Rightarrow> real list \<Rightarrow> real list \<Rightarrow> real option \<Rightarrow> real option
     \<Rightarrow> real option \<Rightarrow> nat \<Rightarrow> 's \<Rightarrow> (pyerror + real list \<times> 's) option" where
  "LGMM1_truncated rng weights mus sigmas low high q n_samples s =
     (case py_float low of
        Inl e \<Rightarrow> Some (Inl e)
      | Inr low \<Rightarrow>
         (case py_float high of
            Inl e \<Rightarrow> Some (Inl e)
          | Inr high \<Rightarrow>
              if low \<ge> high then Some (Inl (ValueError ''low >= high''))
              else
                (let exp_low = exp low;
                     exp_high = exp high
                 in LGMM1_loop rng weights mus sigmas exp_low exp_high q n_samples [] s)))"

text \<open>
  The loops cut off after \<open>k\<close> passes of the body: the result of the loop when it ends
  within \<open>k\<close> attempts, and \<open>None\<close> when it needs more.  The source has no such bound; it
  is defined here to count attempts.
\<close>

fun GMM1_loop_within ::
  "nat \<Rightarrow> 's rng_ops \<Rightarrow> real list \<Rightarrow> real list \<Rightarrow> real list \<Rightarrow> real \<Rightarrow> real \<Rightarrow> real option \<Rightarrow> nat
     \<Rightarrow> real list \<Rightarrow> 's \<Rightarrow> (pyerror + real list \<times> 's) option" where
  "GMM1_loop_within 0 rng weights mus sigmas low high q n_samples samples s =
     (if length samples < n_samples then None else Some (Inr (samples, s)))"
| "GMM1_loop_within (Suc k) rng weights mus sigmas low high q n_samples samples s =
     (if length samples < n_samples then
        (case GMM1_attempt rng weights mus sigmas low high q s of
           Inl e \<Rightarrow> Some (Inl e)
         | Inr (None, s') \<Rightarrow>
             GMM1_loop_within k rng weights mus sigmas low high q n_samples samples s'
         | Inr (Some draw, s') \<Rightarrow>
             GMM1_loop_within k rng weights mus sigmas low high q n_samples (samples @ [draw]) s')
      else Some (Inr (samples, s)))"

fun LGMM1_loop_within ::
  "nat \<Rightarrow> 's rng_ops \<Rightarrow> real list \<Rightarrow> real list \<Rightarrow> real list \<Rightarrow> real \<Rightarrow> real \<Rightarrow> real option \<Rightarrow> nat
     \<Rightarrow> real list \<Rightarrow> 's \<Rightarrow> (pyerror + real list \<times> 's) option" where
  "LGMM1_loop_within 0 rng weights mus sigmas exp_low exp_high q n_samples samples s =
     (if length samples < n_samples then None else Some (Inr (samples, s)))"
| "LGMM1_loop_within (Suc k) rng weights mus sigmas exp_low exp_high q n_samples samples s =
     (if length samples < n_samples then
        (case LGMM1_attempt rng weights mus sigmas exp_low exp_high q s of
           Inl e \<Rightarrow> Some (Inl e)
         | Inr (None, s') \<Rightarrow>
             LGMM1_loop_within k rng weights mus sigmas exp_low exp_high q n_samples samples s'
         | Inr (Some draw, s') \<Rightarrow>
             LGMM1_loop_within k rng weights mus sigmas exp_low exp_high q n_samples
               (samples @ [draw]) s')
      else Some (Inr (samples, s)))"

text \<open>
  A generator for the examples, given by the sequence \<open>z\<close> of its standard normal
  variates: the draw of mean \<open>loc\<close> and width \<open>scale\<close> is \<open>loc + scale * z i\<close>, where the
  state \<open>i\<close> counts the draws made.  It draws the first component, as every generator
  does on a mixture of one component.
\<close>

definition rng_variates :: "(nat \<Rightarrow> real) \<Rightarrow> nat rng_ops" where
  "rng_variates z =
     \<lparr>multinomial1 = (\<lambda>weights i.
         if weights = [] then Inl (ValueError ''attempt to get argmax of an empty sequence'')
         else Inr (0, i)),
      normal = (\<lambda>loc scale i.
         if scale < 0 then Inl (ValueError ''scale < 0'')
         else Inr (loc + scale * z i, Suc i))\<rparr>"

text \<open>The variates that are \<open>3\<close> for the first \<open>B\<close> draws and \<open>0\<close> from then on.\<close>

definition late_variates :: "nat \<Rightarrow> nat \<Rightarrow> real" where
  "late_variates B i = (if i < B then 3 else 0)"

subsection \<open>Densities of the truncated mixtures (lines 94-259)\<close>

text \<open>
  \<^verbatim>\<open>scipy.special.erf\<close> is outside the repository.  It is the error function, here by
  its Maclaurin series: \<open>erf x = 2 / sqrt pi * (\<Sum>n. (-1)\<^sup>n x\<^bsup>2n+1\<^esup> / (n! (2n+1)))\<close>.
\<close>

definition erf_term :: "real \<Rightarrow> nat \<Rightarrow> real" where
  "erf_term x n = x ^ (2 * n + 1) / (fact n * real (2 * n + 1))"

definition erf :: "real \<Rightarrow> real" where
  "erf x = 2 / sqrt pi * (\<Sum>n. (- 1) ^ n * erf_term x n)"

text \<open>Lines 95-99, for one \<open>x\<close>, one \<open>mu\<close> and one \<open>sigma\<close>.\<close>

definition normal_cdf :: "real \<Rightarrow> real \<Rightarrow> real \<Rightarrow> real" where
  "normal_cdf x mu sigma =
     (let top = x - mu;
          bottom = max (sqrt 2 * sigma) EPS;
          z = top / bottom
      in 0.5 * (1 + erf z))"

text \<open>
  Lines 239-245 (and 110-116), the acceptance mass of the truncation: \<open>1\<close> when neither
  bound is given.  With one bound only, the subtraction from \<open>None\<close> raises.
\<close>

definition truncation_p_accept ::
  "real list \<Rightarrow> real list \<Rightarrow> real list \<Rightarrow> real option \<Rightarrow> real option \<Rightarrow> pyerror + real" where
  "truncation_p_accept weights mus sigmas low high =
     (if low = None \<and> high = None then Inr 1
      else
        (case (low, high) of
           (Some l, Some h) \<Rightarrow>
             Inr (sum_list (map (\<lambda>(w, mu, sigma).
                    w * (normal_cdf h mu sigma - normal_cdf l mu sigma))
                  (zip weights (zip mus sigmas))))
         | _ \<Rightarrow> Inl TypeError))"

text \<open>
  Lines 152-155, for one \<open>x\<close>; the test of lines 146-149 on the whole array is made by the
  caller below.
\<close>

definition lognormal_cdf :: "real \<Rightarrow> real \<Rightarrow> real \<Rightarrow> real" where
  "lognormal_cdf x mu sigma =
     (let top = ln (max x EPS) - mu;
          bottom = max (sqrt 2 * sigma) EPS;
          z = top / bottom
      in 0.5 + 0.5 * erf z)"

text \<open>Lines 165-169, for one \<open>x\<close>; the assertion of line 164 is made by the caller below.\<close>

definition lognormal_lpdf :: "real \<Rightarrow> real \<Rightarrow> real \<Rightarrow> real" where
  "lognormal_lpdf x mu sigma =
     (let sigma = max sigma EPS;
          Z = sigma * x * sqrt (2 * pi);
          E = 0.5 * ((ln x - mu) / sigma) ^ 2
      in - E - ln Z)"

text \<open>
  Lines 222-225, for one row: \<^verbatim>\<open>log(sum(exp(x - m))) + m\<close> with \<open>m\<close> the maximum of the
  row.  The maximum of an empty row raises.
\<close>

definition logsum_row :: "real list \<Rightarrow> pyerror + real" where
  "logsum_row x =
     (if x = [] then Inl (ValueError ''zero-size array to reduction operation maximum'')
      else (let m = Max (set x) in Inr (ln (sum_list (map (\<lambda>v. exp (v - m)) x)) + m)))"

text \<open>The first error of a list of results, or all the values.\<close>

fun sequence_results :: "('e + 'a) list \<Rightarrow> 'e + 'a list" where
  "sequence_results [] = Inr []"
| "sequence_results (Inl e # rs) = Inl e"
| "sequence_results (Inr x # rs) = (case sequence_results rs of Inl e \<Rightarrow> Inl e | Inr xs \<Rightarrow> Inr (x # xs))"

definition logsum_rows :: "real list list \<Rightarrow> pyerror + real list" where
  "logsum_rows x = sequence_results (map logsum_row x)"

text \<open>
  Lines 229-259, on the flattened samples.  The arrays \<open>weights\<close>, \<open>mus\<close> and \<open>sigmas\<close>
  have one entry per component: the model covers arrays of one length, and raises for
  others (where numpy broadcasts or raises, and \<^verbatim>\<open>zip\<close> truncates).
  In the branch \<^verbatim>\<open>q is None\<close> the row of a sample holds
  \<^verbatim>\<open>lognormal_lpdf(x, mu, sigma) + log(w)\<close> per component.  In the other branch
  \<^verbatim>\<open>lognormal_cdf\<close> raises on a negative argument (when there is a component to call it
  for).  Logarithms are HOL's \<open>ln\<close>, which agrees with numpy's on positive arguments.
\<close>

definition LGMM1_lpdf ::
  "real list \<Rightarrow> real list \<Rightarrow> real list \<Rightarrow> real list \<Rightarrow> real option \<Rightarrow> real option \<Rightarrow> real option
     \<Rightarrow> pyerror + real list" where
  "LGMM1_lpdf samples weights mus sigmas low high q =
     (if \<not> (length weights = length mus \<and> length mus = length sigmas)
      then Inl (ValueError ''operands could not be broadcast together'')
      else
        (case truncation_p_accept weights mus sigmas low high of
           Inl e \<Rightarrow> Inl e
         | Inr p_accept \<Rightarrow>
            (case q of
               None \<Rightarrow>
                 if list_ex (\<lambda>sigma. sigma < 0) sigmas then Inl AssertionError
                 else
                   logsum_rows
                     (map (\<lambda>x. map (\<lambda>(w, mu, sigma). lognormal_lpdf x mu sigma + ln w)
                                  (zip weights (zip mus sigmas)))
                          samples)
             | Some qv \<Rightarrow>
                 if weights \<noteq> [] \<and> list_ex (\<lambda>x. x < 0) samples
                 then Inl (ValueError ''negative arg to lognormal_cdf'')
                 else if weights \<noteq> [] \<and> list_ex (\<lambda>x. x - qv < 0) samples
                 then Inl (ValueError ''negative arg to lognormal_cdf'')
                 else
                   Inr (map (\<lambda>x.
                          ln (sum_list (map (\<lambda>(w, mu, sigma).
                                w * lognormal_cdf x mu sigma - w * lognormal_cdf (x - qv) mu sigma)
                              (zip weights (zip mus sigmas))))
                          - ln p_accept)
                        samples))))"

subsection \<open>The derivative-free refinement (refine_no_grad, lines 669-822)\<close>

text \<open>Python's \<^verbatim>\<open>sub in s\<close> on strings: \<open>sub\<close> occurs in \<open>s\<close>.\<close>

fun starts_with :: "string \<Rightarrow> string \<Rightarrow> bool" where
  "starts_with s [] = True"
| "starts_with [] (c # cs) = False"
| "starts_with (a # as) (c # cs) = (a = c \<and> starts_with as cs)"

fun py_in :: "string \<Rightarrow> string \<Rightarrow> bool" where
  "py_in sub [] = (sub = [])"
| "py_in sub (c # cs) = (starts_with (c # cs) sub \<or> py_in sub cs)"

text \<open>
  The prior node of a hyperparameter, \<^verbatim>\<open>self.vals_by_nid[nid]\<close>: the literals of its
  positional and of its named arguments.
\<close>

record sval =
  pos_args :: "real list"
  named_args :: "(string \<times> real) list"

text \<open>The evaluation memo: the arrays bound to the nodes of the graph.\<close>

type_synonym 'node memo = "'node \<rightharpoonup> npfloat list"

text \<open>
  What \<^verbatim>\<open>refine_no_grad\<close> reads of the estimator and of the libraries it calls, none of
  which is among the sources; they are parameters.
  \<^item> \<open>rec_eval_sample memo\<close> is \<^verbatim>\<open>pyll.rec_eval((post_below['idxs'], post_below['vals']), memo=memo)\<close>:
    the values drawn from the below posterior, by node id in the order of iteration, and
    the memo, which the evaluation extends with what it computed.
  \<^item> \<open>rec_eval_llik memo\<close> is \<^verbatim>\<open>pyll.rec_eval([post_above['llik'], post_below['llik']], memo=memo)\<close>.
  \<^item> \<open>fmin_powell f x0\<close> is \<^verbatim>\<open>scipy.optimize.fmin_powell(f, x0, maxfun=500)\<close>, flattened.
\<close>

record ('nid, 'node) tpe =
  n_EI_candidates :: nat
  name_by_nid :: "'nid \<Rightarrow> string"
  vals_by_nid :: "'nid \<Rightarrow> sval"
  post_below_vals :: "'nid \<Rightarrow> 'node"
  rec_eval_sample :: "'node memo \<Rightarrow> ('nid \<times> real list) list \<times> 'node memo"
  rec_eval_llik :: "'node memo \<Rightarrow> real \<times> real"
  fmin_powell :: "(real list \<Rightarrow> real) \<Rightarrow> real list \<Rightarrow> real list"

text \<open>The five lists built by the loop of lines 683-738.\<close>

record 'nid bounds =
  nids_to_optimize :: "'nid list"
  all_vals :: "real list"
  lbounds :: "real list"
  ubounds :: "real list"
  qlevels :: "real option list"

text \<open>
  Lines 708-711: \<^verbatim>\<open>sval.pos_args[2].obj\<close>, or on \<open>IndexError\<close> the first named argument
  \<open>q\<close> (whose absence is an \<open>IndexError\<close> again).
\<close>

definition q_of :: "sval \<Rightarrow> pyerror + real" where
  "q_of sval =
     (if 2 < length (pos_args sval) then Inr (pos_args sval ! 2)
      else
        (case filter (\<lambda>(n, a). n = ''q'') (named_args sval) of
           [] \<Rightarrow> Inl IndexError
         | (n, a) # _ \<Rightarrow> Inr a))"

text \<open>Lines 706-714: the level when \<^verbatim>\<open>'q' in dist\<close>, else \<open>None\<close>.\<close>

definition qlevel_of :: "string \<Rightarrow> sval \<Rightarrow> pyerror + real option" where
  "qlevel_of dname sval =
     (if py_in ''q'' dname then (case q_of sval of Inl e \<Rightarrow> Inl e | Inr q \<Rightarrow> Inr (Some q))
      else Inr None)"

definition bounds_append ::
  "'nid bounds \<Rightarrow> 'nid \<Rightarrow> real list \<Rightarrow> real \<Rightarrow> real \<Rightarrow> real option \<Rightarrow> 'nid bounds" where
  "bounds_append b nid vals lb ub q =
     \<lparr>nids_to_optimize = nids_to_optimize b @ [nid],
      all_vals = all_vals b @ vals,
      lbounds = lbounds b @ [lb],
      ubounds = ubounds b @ [ub],
      qlevels = qlevels b @ [q]\<rparr>"

text \<open>
  Lines 689-738, the body of the loop for one node id and its drawn values; \<open>dname\<close> is
  the source's \<open>dist\<close>.
\<close>

definition bounds_step ::
  "('nid, 'node) tpe \<Rightarrow> real \<Rightarrow> 'nid \<times> real list \<Rightarrow> 'nid bounds \<Rightarrow> pyerror + 'nid bounds" where
  "bounds_step T MEDIUM nv b =
     (case nv of (nid, vals) \<Rightarrow>
        if length vals = 0 then Inr b
        else if length vals \<noteq> 1 then Inl AssertionError
        else
          (let dname = name_by_nid T nid;
               sval = vals_by_nid T nid
           in if dname \<in> set [''uniform'', ''quniform'', ''loguniform'', ''qloguniform''] then
                (if length (pos_args sval) < 2 then Inl IndexError
                 else
                   (let lbound = pos_args sval ! 0;
                        ubound = pos_args sval ! 1;
                        lb = (if py_in ''log'' dname then exp lbound else lbound);
                        ub = (if py_in ''log'' dname then exp ubound else ubound)
                    in case qlevel_of dname sval of
                         Inl e \<Rightarrow> Inl e
                       | Inr q \<Rightarrow> Inr (bounds_append b nid vals lb ub q)))
              else if dname \<in> set [''normal'', ''qnormal'', ''lognormal'', ''qlognormal''] then
                (let lb = (if py_in ''log'' dname then 1 / 10 ^ 12 else - MEDIUM);
                     ub = MEDIUM
                 in case qlevel_of dname sval of
                      Inl e \<Rightarrow> Inl e
                    | Inr q \<Rightarrow> Inr (bounds_append b nid vals lb ub q))
              else if ''randint'' = dname then Inr b
              else Inl NotImplementedError))"

fun collect_bounds ::
  "('nid, 'node) tpe \<Rightarrow> real \<Rightarrow> ('nid \<times> real list) list \<Rightarrow> 'nid bounds \<Rightarrow> pyerror + 'nid bounds" where
  "collect_bounds T MEDIUM [] b = Inr b"
| "collect_bounds T MEDIUM (nv # rest) b =
     (case bounds_step T MEDIUM nv b of
        Inl e \<Rightarrow> Inl e
      | Inr b' \<Rightarrow> collect_bounds T MEDIUM rest b')"

text \<open>
  \<^verbatim>\<open>any(pti < lbi for pti, lbi in zip(pt, lbounds) if lbi is not None)\<close> and the same
  with \<open>>\<close>; every bound appended by the loop is a number.
\<close>

definition any_below :: "real list \<Rightarrow> real list \<Rightarrow> bool" where
  "any_below pt bounds = list_ex (\<lambda>(pti, lbi). pti < lbi) (zip pt bounds)"

definition any_above :: "real list \<Rightarrow> real list \<Rightarrow> bool" where
  "any_above pt bounds = list_ex (\<lambda>(pti, ubi). pti > ubi) (zip pt bounds)"

text \<open>
  Lines 762 and 808: the rounding to a level \<open>q\<close>, \<^verbatim>\<open>ceil(1e-8 + pti / qi) * qi\<close> inside
  the objective and \<^verbatim>\<open>ceil(pti / qi) * qi\<close> at the end; \<open>nan\<close> for \<open>q = 0\<close>.
\<close>

definition snap_eval :: "real \<Rightarrow> real option \<Rightarrow> npfloat" where
  "snap_eval pti qi =
     (case qi of
        None \<Rightarrow> Finite pti
      | Some q \<Rightarrow> if q = 0 then NaN else Finite (of_int \<lceil>1 / 10 ^ 8 + pti / q\<rceil> * q))"

definition snap_found :: "real \<Rightarrow> real option \<Rightarrow> npfloat" where
  "snap_found pti qi =
     (case qi of
        None \<Rightarrow> Finite pti
      | Some q \<Rightarrow> if q = 0 then NaN else Finite (of_int \<lceil>pti / q\<rceil> * q))"

text \<open>
  Lines 813-820 (and 772-781): \<^verbatim>\<open>memo[v] = new_vals\<close> for each optimized node id, one
  value each.
\<close>

definition write_vals ::
  "('nid, 'node) tpe \<Rightarrow> 'node memo \<Rightarrow> 'nid list \<Rightarrow> npfloat list \<Rightarrow> 'node memo" where
  "write_vals T memo nids vals =
     fold (\<lambda>(nid, v) m. m(post_below_vals T nid \<mapsto> [v])) (zip nids vals) memo"

text \<open>Lines 754-790, the objective handed to the optimizer.\<close>

definition neg_EI ::
  "('nid, 'node) tpe \<Rightarrow> 'node memo \<Rightarrow> 'nid bounds \<Rightarrow> real \<Rightarrow> real list \<Rightarrow> real" where
  "neg_EI T memo b BIG pt =
     (if any_below pt (lbounds b) then BIG
      else if any_above pt (ubounds b) then BIG
      else
        (let pt = map2 snap_eval pt (qlevels b);
             opt_memo = write_vals T memo (nids_to_optimize b) pt
         in case rec_eval_llik T opt_memo of (aa, bb) \<Rightarrow> - (bb - aa)))"

text \<open>
  Lines 670-796: everything up to the result \<open>found\<close> of the optimizer.
  The tuple \<^verbatim>\<open>(pti, lbi)\<close> of line 752 reads \<open>lbi\<close>, a local variable that is bound only by
  the loops of lines 744 and 798 (the generator expression of line 743 has a scope of its
  own): building the \<open>ValueError\<close> of line 752 raises \<open>UnboundLocalError\<close>.
  The assertion \<^verbatim>\<open>assert v in opt_memo\<close> of line 778 is reached by the optimizer's first
  call of the objective, at the candidate itself.
\<close>

definition refine_setup ::
  "('nid, 'node) tpe \<Rightarrow> 'node memo \<Rightarrow> real \<Rightarrow> real
     \<Rightarrow> pyerror + ('nid bounds \<times> real list \<times> 'node memo)" where
  "refine_setup T memo BIG MEDIUM =
     (if n_EI_candidates T > 1 then Inl NotImplementedError
      else
        (case rec_eval_sample T memo of (i_vals, memo) \<Rightarrow>
           (case collect_bounds T MEDIUM i_vals
                   \<lparr>nids_to_optimize = [], all_vals = [], lbounds = [], ubounds = [], qlevels = []\<rparr> of
              Inl e \<Rightarrow> Inl e
            | Inr b \<Rightarrow>
                if length (all_vals b) \<noteq> length (nids_to_optimize b) then Inl AssertionError
                else if length (all_vals b) \<noteq> length (lbounds b) then Inl AssertionError
                else if any_below (all_vals b) (lbounds b)
                  then Inl (ValueError ''sampler did not respect lbound'')
                else if length (all_vals b) \<noteq> length (ubounds b) then Inl AssertionError
                else if any_above (all_vals b) (ubounds b)
                  then Inl (UnboundLocalError ''lbi'')
                else if list_ex (\<lambda>nid. memo (post_below_vals T nid) = None) (nids_to_optimize b)
                  then Inl AssertionError
                else
                  (let found = fmin_powell T (neg_EI T memo b BIG) (all_vals b)
                   in if \<not> (length found = length (lbounds b)
                              \<and> length (lbounds b) = length (qlevels b))
                      then Inl AssertionError
                      else Inr (b, found, memo)))))"

text \<open>Lines 797-822: the checks of \<open>found\<close> and the copy into the memo.\<close>

definition refine_no_grad ::
  "('nid, 'node) tpe \<Rightarrow> 'node memo \<Rightarrow> real \<Rightarrow> real \<Rightarrow> pyerror + 'node memo" where
  "refine_no_grad T memo BIG MEDIUM =
     (case refine_setup T memo BIG MEDIUM of
        Inl e \<Rightarrow> Inl e
      | Inr (b, found, memo) \<Rightarrow>
          if any_below found (lbounds b) then Inr memo
          else if any_above found (ubounds b) then Inr memo
          else
            (let found = map2 snap_found found (qlevels b)
             in Inr (write_vals T memo (nids_to_optimize b) found)))"

text \<open>
  For the examples: a search space of one hyperparameter of family \<open>dname\<close> with the
  positional arguments \<open>0, 1, 1\<close>, a draw \<open>drawn\<close> from the below posterior, and an
  optimizer that returns \<open>refined\<close>.
\<close>

definition tpe_single :: "string \<Rightarrow> real \<Rightarrow> real \<Rightarrow> (nat, nat) tpe" where
  "tpe_single dname drawn refined =
     \<lparr>n_EI_candidates = 1,
      name_by_nid = (\<lambda>nid. dname),
      vals_by_nid = (\<lambda>nid. \<lparr>pos_args = [0, 1, 1], named_args = []\<rparr>),
      post_below_vals = (\<lambda>nid. nid),
      rec_eval_sample = (\<lambda>memo. ([(0, [drawn])], memo(0 \<mapsto> [Finite drawn]))),
      rec_eval_llik = (\<lambda>memo. (0, 0)),
      fmin_powell = (\<lambda>f x0. [refined])\<rparr>"

text \<open>The five lists have one entry per optimized node id.\<close>

definition bounds_wf :: "'nid bounds \<Rightarrow> bool" where
  "bounds_wf b = (length (all_vals b) = length (nids_to_optimize b)
                  \<and> length (lbounds b) = length (nids_to_optimize b)
                  \<and> length (ubounds b) = length (nids_to_optimize b)
                  \<and> length (qlevels b) = length (nids_to_optimize b))"

text \<open>The optimized node ids and the candidate come from the sample \<open>S\<close>.\<close>

definition bounds_from :: "('nid \<times> real list) set \<Rightarrow> 'nid bounds \<Rightarrow> bool" where
  "bounds_from S b = (bounds_wf b \<and>
     (\<forall>i<length (nids_to_optimize b). (nids_to_optimize b ! i, [all_vals b ! i]) \<in> S))"

section \<open>Properties\<close>

subsection \<open>The estimator on zero and one observation\<close>

lemma parzen_weights_two:
  "parzen_weights (Suc (Suc 0)) pw = [np_true_divide 1 (1 + pw), np_true_divide pw (1 + pw)]"
  by (simp add: parzen_weights_def upt_rec)

lemma half_less_inverse_sqrt3: "(1::real) / 2 < 1 / sqrt 3"
proof -
  have "sqrt 3 < 2" by (rule real_less_lsqrt) simp_all
  then show ?thesis by (simp add: field_simps)
qed

lemma np_clip_half:
  assumes "0 < ps"
  shows "np_clip (ps / 2) (ps / sqrt 3) ps = ps / sqrt 3"
proof -
  have a: "ps * (1 / 2) < ps * (1 / sqrt 3)"
    using assms half_less_inverse_sqrt3 by (simp only: mult_less_cancel_left_pos)
  have "1 < sqrt 3" by (rule real_less_rsqrt) simp
  then have b: "ps / sqrt 3 < ps" using assms by (simp add: field_simps)
  from a b show ?thesis by (simp add: np_clip_def)
qed

lemma np_clip_prior:
  assumes "0 < ps" "0 < r"
  shows "np_clip ps (ps / sqrt (1 + r)) ps = ps"
proof -
  have "1 \<le> sqrt (1 + r)" using assms by simp
  then have "ps / sqrt (1 + r) \<le> ps" using assms by (simp add: field_simps)
  then show ?thesis by (simp add: np_clip_def)
qed

lemma adaptive_parzen_normal_single:
  "0 < ps \<Longrightarrow> adaptive_parzen_normal [x] pw pm ps =
     Inr ([np_true_divide 1 (1 + pw), np_true_divide pw (1 + pw)], [x, pm], [ps / sqrt 3, ps])"
  using np_clip_prior[of ps 2]
  by (simp add: adaptive_parzen_normal_def parzen_components_def parzen_weights_two np_clip_half)

text \<open>
  C3 (the code departs from the claim).  On the empty observation vector the only weight is
  \<open>1 - 1 = 0\<close> times \<open>prior_weight\<close>, divided by the sum \<open>0\<close>: the weight vector
  returned is \<open>[nan]\<close>, not \<open>[1]\<close>, for every prior.  The mean and the width are the
  prior's.
\<close>

theorem adaptive_parzen_normal_empty_nan:
  "adaptive_parzen_normal [] prior_weight prior_mu prior_sigma =
     Inr ([NaN], [prior_mu], [prior_sigma])"
  by (simp add: adaptive_parzen_normal_def parzen_components_def parzen_weights_def
      np_true_divide_def np_clip_def)

text \<open>
  C4, as claimed, fails: with the default \<open>prior_weight = 0.3\<close>, one observation \<open>0\<close> and
  the prior \<open>(0, 1)\<close> the weights are \<open>10/13, 3/13\<close> and the first width is \<open>1 / sqrt 3\<close>,
  not \<open>1/2, 1/2\<close> and \<open>1/2\<close>.
\<close>

theorem adaptive_parzen_normal_single_counterexample:
  "adaptive_parzen_normal [0] (3 / 10) 0 1 =
     Inr ([Finite (10 / 13), Finite (3 / 13)], [0, 0], [1 / sqrt 3, 1])
   \<and> Finite (10 / 13) \<noteq> Finite (1 / 2)
   \<and> (1::real) / sqrt 3 \<noteq> 1 / 2"
  using adaptive_parzen_normal_single[of 1 0 "3 / 10" 0] half_less_inverse_sqrt3
  by (simp add: np_true_divide_def)

text \<open>
  C4 (amended).  For a single observation and \<open>prior_sigma > 0\<close> the estimator returns
  the weights \<open>1 / (1 + prior_weight)\<close> and \<open>prior_weight / (1 + prior_weight)\<close>
  (numpy division), the means \<open>obs[0], prior_mu\<close> and the widths
  \<open>prior_sigma / sqrt 3, prior_sigma\<close>: the width \<open>prior_sigma / 2\<close> of line 294 is
  clipped up to the minimum width of line 327.
\<close>

theorem adaptive_parzen_normal_single_obs:
  assumes "0 < prior_sigma"
  shows "adaptive_parzen_normal [x] prior_weight prior_mu prior_sigma =
     Inr ([np_true_divide 1 (1 + prior_weight), np_true_divide prior_weight (1 + prior_weight)],
          [x, prior_mu],
          [prior_sigma / sqrt 3, prior_sigma])"
  using assms by (rule adaptive_parzen_normal_single)

theorem adaptive_parzen_normal_single_obs_witness:
  "(0::real) < 2 \<and> adaptive_parzen_normal [5] 1 0 2 =
     Inr ([Finite (1 / 2), Finite (1 / 2)], [5, 0], [2 / sqrt 3, 2])"
proof -
  have h: "(0::real) < 2" by simp
  show ?thesis
    using adaptive_parzen_normal_single_obs[OF h, of 5 1 0]
    by (simp add: np_true_divide_def)
qed

subsection \<open>The log-scale adapters\<close>

text \<open>
  C1 (the code departs from the claim).  The \<open>qloguniform\<close> adapter hands the raw
  observations to the estimator.  With the single observation \<open>1\<close> (whose logarithm is
  \<open>0\<close>) the first mean of the mixture is \<open>1\<close>, where the \<open>loguniform\<close> adapter, on the
  same observation and prior, has \<open>0\<close>.
\<close>

theorem ap_qloguniform_sampler_raw_obs:
  "ap_qloguniform_sampler [1] 1 0 4 1 =
     Inr (LGMM1_node [Finite (1 / 2), Finite (1 / 2)] [1, 2] [4 / sqrt 3, 4]
            (Some 0) (Some 4) (Some 1))
   \<and> ap_loguniform_sampler [1] 1 0 4 =
     Inr (LGMM1_node [Finite (1 / 2), Finite (1 / 2)] [0, 2] [4 / sqrt 3, 4]
            (Some 0) (Some 4) None)"
  by (simp add: ap_qloguniform_sampler_def ap_loguniform_sampler_def scope_log_def
      adaptive_parzen_normal_single np_true_divide_def)

subsection \<open>The estimator's invariants\<close>

lemma argsort_props: "set (argsort xs) = {0..<length xs}" "distinct (argsort xs)" "length (argsort xs) = length xs"
  by (simp_all add: argsort_def)


lemma fold_update_length: "length (fold (\<lambda>(i, v) b. b[i := v]) ps a) = length a"
  by (induction ps arbitrary: a) (auto split: prod.splits)

lemma fancy_assign_length: "length (fancy_assign a order vals) = length a"
  by (simp add: fancy_assign_def fold_update_length)

lemma fold_update_other:
  "k \<notin> fst ` set ps \<Longrightarrow> fold (\<lambda>(i, v) b. b[i := v]) ps a ! k = a ! k"
  by (induction ps arbitrary: a) (auto split: prod.splits)

lemma fold_update_nth:
  "distinct (map fst ps) \<Longrightarrow> j < length ps \<Longrightarrow> \<forall>p\<in>set ps. fst p < length a \<Longrightarrow>
   fold (\<lambda>(i, v) b. b[i := v]) ps a ! fst (ps ! j) = snd (ps ! j)"
proof (induction ps arbitrary: a j)
  case Nil
  then show ?case by simp
next
  case (Cons p ps)
  obtain i v where p: "p = (i, v)" by (cases p)
  show ?case
  proof (cases j)
    case 0
    have "i \<notin> fst ` set ps" using Cons.prems(1) p by auto
    then have "fold (\<lambda>(i, v) b. b[i := v]) ps (a[i := v]) ! i = a[i := v] ! i"
      by (rule fold_update_other)
    moreover have "i < length a" using Cons.prems(3) p by simp
    ultimately show ?thesis using 0 p by simp
  next
    case (Suc j')
    have "fold (\<lambda>(i, v) b. b[i := v]) ps (a[i := v]) ! fst (ps ! j') = snd (ps ! j')"
      using Cons.prems Suc by (intro Cons.IH) auto
    then show ?thesis using Suc p by simp
  qed
qed

lemma fancy_assign_nth:
  assumes "distinct order" "length vals = length order" "\<forall>i\<in>set order. i < length a"
    "j < length order"
  shows "fancy_assign a order vals ! (order ! j) = vals ! j"
proof -
  let ?ps = "zip order vals"
  have "fold (\<lambda>(i, v) b. b[i := v]) ?ps a ! fst (?ps ! j) = snd (?ps ! j)"
  proof (rule fold_update_nth)
    show "distinct (map fst ?ps)" using assms by simp
    show "j < length ?ps" using assms by simp
    show "\<forall>p\<in>set ?ps. fst p < length a" using assms(3) by (auto dest: set_zip_leftD)
  qed
  then show ?thesis using assms by (simp add: fancy_assign_def)
qed

text \<open>Un-sorting what was sorted by the same permutation gives the array back.\<close>

lemma fancy_assign_perm:
  assumes "distinct order" "set order = {0..<length xs}" "length order = length xs"
    "length a = length xs" 
  shows "fancy_assign a order (fancy_index xs order) = xs"
proof (rule nth_equalityI)
  show "length (fancy_assign a order (fancy_index xs order)) = length xs"
    using assms by (simp add: fancy_assign_length)
next
  fix k assume "k < length (fancy_assign a order (fancy_index xs order))"
  then have k: "k < length xs" using assms by (simp add: fancy_assign_length)
  then have "k \<in> set order" using assms by simp
  then obtain j where j: "j < length order" "order ! j = k" by (auto simp: in_set_conv_nth)
  have "fancy_assign a order (fancy_index xs order) ! (order ! j) = fancy_index xs order ! j"
    using assms j by (intro fancy_assign_nth) (auto simp: fancy_index_def)
  then show "fancy_assign a order (fancy_index xs order) ! k = xs ! k"
    using j by (simp add: fancy_index_def)
qed

lemma neighbour_sigma_length: "2 \<le> length s \<Longrightarrow> length (neighbour_sigma s) = length s"
proof -
  assume "2 \<le> length s"
  then have "length (map2 max (map2 (-) (butlast (tl s)) (butlast (butlast s)))
                              (map2 (-) (drop 2 s) (butlast (tl s)))) = length s - 2"
    by simp
  then have "length ([0] @ map2 max (map2 (-) (butlast (tl s)) (butlast (butlast s)))
                              (map2 (-) (drop 2 s) (butlast (tl s))) @ [0::real]) = length s"
    using \<open>2 \<le> length s\<close> by simp
  then show ?thesis
    unfolding neighbour_sigma_def Let_def length_list_update .
qed

lemma parzen_components_many:
  assumes "2 \<le> length obs"
  shows "\<exists>sigma. length sigma = length obs \<and>
           parzen_components obs pm ps = Inr (obs @ [pm], sigma @ [ps])"
proof -
  let ?order = "argsort obs"
  let ?s = "fancy_index obs ?order"
  have len: "length ?s = length obs" by (simp add: fancy_index_def argsort_props)
  have unsort: "fancy_assign ?s ?order ?s = obs"
    by (rule fancy_assign_perm) (simp_all add: argsort_props len)
  have "length (fancy_assign (neighbour_sigma ?s) ?order (neighbour_sigma ?s)) = length obs"
    using assms len by (simp add: fancy_assign_length neighbour_sigma_length)
  then show ?thesis using assms unsort
    by (simp add: parzen_components_def Let_def)
qed


lemma np_sum_Finite: "np_sum (map Finite xs) = Finite (sum_list xs)"
  by (induction xs) (simp_all add: np_sum_def)

lemma ramp_sum_ge: "real n \<le> sum_list (map (\<lambda>i. 1 + real i) [0..<n])"
  by (induction n) simp_all

lemma parzen_weights_ramp:
  "parzen_weights (Suc n) pw =
     (let ws = map (\<lambda>i. 1 + real i) [0..<n] @ [real n * pw]
      in map (\<lambda>w. np_true_divide w (sum_list ws)) ws)"
proof -
  let ?r = "map (\<lambda>i. 1 + real i) [0..<n]"
  have n: "n = length ?r" by simp
  have a: "map (\<lambda>i. 1 + real i) [0..<Suc n] = ?r @ [1 + real n]" by simp
  have b: "(?r @ [x])[n := y] = ?r @ [y]" for x y :: real
    using list_update_length[of ?r x "[]" y] by simp
  have c: "(?r @ [x]) ! n = x" for x :: real
    using nth_append_length[of ?r x "[]"] by simp
  show ?thesis
    unfolding parzen_weights_def Let_def a diff_Suc_1 b c by simp
qed

lemma parzen_weights_sum:
  assumes "1 \<le> n" "0 \<le> pw"
  shows "np_sum (parzen_weights (Suc n) pw) = Finite 1"
proof -
  let ?ws = "map (\<lambda>i. 1 + real i) [0..<n] @ [real n * pw]"
  let ?T = "sum_list ?ws"
  have "real n \<le> sum_list (map (\<lambda>i. 1 + real i) [0..<n])" by (rule ramp_sum_ge)
  moreover have "0 \<le> real n * pw" using assms by simp
  moreover have "1 \<le> real n" using assms by simp
  ultimately have T: "0 < ?T" unfolding sum_list_append by simp
  have "map (\<lambda>w. np_true_divide w ?T) ?ws = map Finite (map (\<lambda>w. w * (1 / ?T)) ?ws)"
    using T by (simp add: np_true_divide_def)
  then have "np_sum (map (\<lambda>w. np_true_divide w ?T) ?ws) = Finite (sum_list (map (\<lambda>w. w * (1 / ?T)) ?ws))"
    by (simp only: np_sum_Finite)
  also have "sum_list (map (\<lambda>w. w * (1 / ?T)) ?ws) = ?T * (1 / ?T)"
    by (simp only: sum_list_mult_const mult.commute list.map_ident)
  also have "?T * (1 / ?T) = 1" using T by simp
  finally show ?thesis by (simp only: parzen_weights_ramp Let_def)
qed

lemma np_clip_bounds:
  assumes "lo \<le> hi"
  shows "lo \<le> np_clip s lo hi \<and> np_clip s lo hi \<le> hi"
  using assms by (simp add: np_clip_def)

lemma spec_parzen_invariants_nonempty:
  assumes "obs \<noteq> []" "0 \<le> pw" "0 < ps"
  shows "\<exists>out. adaptive_parzen_normal obs pw pm ps = Inr out \<and>
           spec_parzen_invariants (length obs) pm ps out"
proof -
  obtain sigma where sg: "length sigma = length obs"
      "parzen_components obs pm ps = Inr (obs @ [pm], sigma @ [ps])"
  proof (cases "length obs = 1")
    case True
    then obtain x where "obs = [x]" by (cases obs) auto
    then have "parzen_components obs pm ps = Inr (obs @ [pm], [ps * 0.5] @ [ps])"
      by (simp add: parzen_components_def)
    with True that[of "[ps * 0.5]"] show ?thesis by simp
  next
    case False
    with assms(1) have "2 \<le> length obs"
      by (cases "length obs") (auto simp: Suc_le_eq)
    from parzen_components_many[OF this, of pm ps] that show ?thesis by blast
  qed
  let ?m = "length (obs @ [pm])"
  let ?lo = "ps / sqrt (1 + real ?m)"
  let ?out = "(parzen_weights ?m pw, obs @ [pm], map (\<lambda>s. np_clip s ?lo ps) (sigma @ [ps]))"
  have eq: "adaptive_parzen_normal obs pw pm ps = Inr ?out"
    by (simp add: adaptive_parzen_normal_def sg(2) Let_def)
  have "1 \<le> sqrt (1 + real ?m)" by simp
  then have lo: "?lo \<le> ps" using assms(3) by (simp add: field_simps)
  have lo_eq: "?lo = ps / sqrt (real (length obs) + 2)" by (simp add: add.commute)
  have w: "np_sum (parzen_weights ?m pw) = Finite 1"
    using assms(1,2) parzen_weights_sum[of "length obs" pw]
    by (cases obs) simp_all
  have s: "list_all (\<lambda>s. ?lo \<le> s \<and> s \<le> ps) (map (\<lambda>s. np_clip s ?lo ps) (sigma @ [ps]))"
    unfolding list_all_iff using np_clip_bounds[OF lo] by auto
  have "spec_parzen_invariants (length obs) pm ps ?out"
    unfolding spec_parzen_invariants_def prod.case w lo_eq[symmetric]
    using s by simp
  with eq show ?thesis by blast
qed

text \<open>
  C5 (the code departs from the claim).  For one observation or more, a non-negative
  \<open>prior_weight\<close> and a positive \<open>prior_sigma\<close> the invariants hold
  (\<open>spec_parzen_invariants_nonempty\<close>).  On the empty observation vector they do not:
  the weight vector is \<open>[nan]\<close>, whose sum is not within \<open>10\<^sup>-\<^sup>1\<^sup>2\<close> of \<open>1\<close>.
\<close>

theorem adaptive_parzen_normal_empty_breaks_invariants:
  "adaptive_parzen_normal [] (3 / 10) 0 1 = Inr ([NaN], [0], [1])
   \<and> \<not> spec_parzen_invariants 0 0 1 ([NaN], [0], [1])"
  by (simp add: adaptive_parzen_normal_def parzen_components_def parzen_weights_def
      np_true_divide_def np_clip_def spec_parzen_invariants_def np_sum_def)

subsection \<open>The trial filter\<close>

lemma round_half_even_le:
  assumes "m \<le> of_int K"
  shows "round_half_even m \<le> K"
proof -
  have f: "\<lfloor>m\<rfloor> \<le> K" using assms by (simp add: floor_le_iff) 
  show ?thesis
  proof (cases "m - of_int \<lfloor>m\<rfloor> < 1 / 2 \<or> (m - of_int \<lfloor>m\<rfloor> = 1 / 2 \<and> even \<lfloor>m\<rfloor>)")
    case True
    then have "round_half_even m = \<lfloor>m\<rfloor>" by (auto simp: round_half_even_def Let_def)
    with f show ?thesis by simp
  next
    case False
    then have "of_int \<lfloor>m\<rfloor> < m" by linarith
    then have "of_int \<lfloor>m\<rfloor> < (of_int K :: real)" using assms by linarith
    then have "\<lfloor>m\<rfloor> + 1 \<le> K" by simp
    moreover have "round_half_even m \<le> \<lfloor>m\<rfloor> + 1" by (simp add: round_half_even_def Let_def)
    ultimately show ?thesis by linarith
  qed
qed

lemma round_half_even_ge:
  assumes "of_int K \<le> m"
  shows "K \<le> round_half_even m"
proof -
  have "K \<le> \<lfloor>m\<rfloor>" using assms by (simp add: le_floor_iff)
  moreover have "\<lfloor>m\<rfloor> \<le> round_half_even m" by (simp add: round_half_even_def Let_def)
  ultimately show ?thesis by linarith
qed

lemma floor_log2_bounds:
  assumes "0 < x"
  shows "2 powr (of_int \<lfloor>log 2 x\<rfloor>) \<le> x" "x < 2 powr (of_int \<lfloor>log 2 x\<rfloor> + 1)"
  using floor_log_eq_powr_iff[of x 2 "\<lfloor>log 2 x\<rfloor>"] assms by simp_all

lemma round_double_small_ulp:
  assumes "0 < x" "\<lfloor>log 2 x\<rfloor> - 52 \<le> 0"
  shows "round_double x =
     of_int (round_half_even (x * 2 ^ nat (52 - \<lfloor>log 2 x\<rfloor>))) / 2 ^ nat (52 - \<lfloor>log 2 x\<rfloor>)"
proof -
  let ?e = "\<lfloor>log 2 x\<rfloor> - 52"
  have "(2::real) powr (of_int ?e) = 1 / 2 ^ nat (- ?e)"
  proof (cases "?e = 0")
    case True
    then show ?thesis by simp
  next
    case False
    then have "\<not> 0 \<le> ?e" using assms(2) by linarith
    then show ?thesis using powr_int[of "2::real" ?e] by simp
  qed
  moreover have "nat (- ?e) = nat (52 - \<lfloor>log 2 x\<rfloor>)" by simp
  ultimately have u: "(2::real) powr (of_int \<lfloor>log 2 x\<rfloor> - 52) = 1 / 2 ^ nat (52 - \<lfloor>log 2 x\<rfloor>)"
    by simp
  show ?thesis
    using assms(1) by (simp add: round_double_def Let_def u)
qed

lemma round_double_le_int:
  assumes "0 \<le> x" "x \<le> of_int K" "K < 2 ^ 53"
  shows "round_double x \<le> of_int K"
proof (cases "x = 0")
  case True
  then show ?thesis using assms by (simp add: round_double_def)
next
  case False
  then have x: "0 < x" using assms(1) by simp
  let ?t = "\<lfloor>log 2 x\<rfloor>"
  have "2 powr (of_int ?t) \<le> x" using x by (rule floor_log2_bounds)
  also have "x < 2 ^ 53" using assms(2,3)
    by (metis (mono_tags) le_less_trans of_int_less_iff of_int_numeral of_int_power)
  finally have "2 powr (of_int ?t) < (2::real) ^ 53" .
  moreover have "(2::real) powr 53 = 2 ^ 53" by simp
  ultimately have "(2::real) powr (of_int ?t) < 2 powr 53" by simp
  then have "of_int ?t < (53::real)" by (simp only: powr_less_cancel_iff)
  then have t: "?t - 52 \<le> 0" by linarith
  let ?P = "(2::real) ^ nat (52 - ?t)"
  have P: "0 < ?P" by simp
  have "x * ?P \<le> of_int K * ?P" using assms(2) P by (simp only: mult_le_cancel_right_pos)
  also have "of_int K * ?P = of_int (K * 2 ^ nat (52 - ?t))" by simp
  finally have "round_half_even (x * ?P) \<le> K * 2 ^ nat (52 - ?t)" by (rule round_half_even_le)
  then have "(of_int (round_half_even (x * ?P)) :: real) \<le> of_int (K * 2 ^ nat (52 - ?t))"
    by (simp only: of_int_le_iff)
  then have "of_int (round_half_even (x * ?P)) \<le> of_int K * ?P" by simp
  then have "of_int (round_half_even (x * ?P)) / ?P \<le> of_int K"
    using P by (simp add: field_simps)
  then show ?thesis by (simp only: round_double_small_ulp[OF x t])
qed

lemma round_double_ge_int:
  assumes "0 \<le> K" "of_int K \<le> x" "K < 2 ^ 53"
  shows "of_int K \<le> round_double x"
proof (cases "x = 0")
  case True
  then show ?thesis using assms by (simp add: round_double_def)
next
  case False
  then have x: "0 < x" using assms(1,2) by simp
  let ?t = "\<lfloor>log 2 x\<rfloor>"
  show ?thesis
  proof (cases "?t - 52 \<le> 0")
    case True
    let ?P = "(2::real) ^ nat (52 - ?t)"
    have P: "0 < ?P" by simp
    have "of_int (K * 2 ^ nat (52 - ?t)) = of_int K * ?P" by simp
    also have "\<dots> \<le> x * ?P" using assms(2) P by (simp only: mult_le_cancel_right_pos)
    finally have "K * 2 ^ nat (52 - ?t) \<le> round_half_even (x * ?P)" by (rule round_half_even_ge)
    then have "(of_int (K * 2 ^ nat (52 - ?t)) :: real) \<le> of_int (round_half_even (x * ?P))"
      by (simp only: of_int_le_iff)
    then have "of_int K * ?P \<le> of_int (round_half_even (x * ?P))" by simp
    then have "of_int K \<le> of_int (round_half_even (x * ?P)) / ?P"
      using P by (simp add: field_simps)
    then show ?thesis by (simp only: round_double_small_ulp[OF x True])
  next
    case False
    then have e: "1 \<le> ?t - 52" by simp
    let ?u = "(2::real) powr (of_int (?t - 52))"
    have u: "2 \<le> ?u"
    proof -
      have "(2::real) powr 1 \<le> 2 powr (of_int (?t - 52))"
        using e by (simp only: powr_le_cancel_iff)
      then show ?thesis by simp
    qed
    have "2 powr (of_int ?t) \<le> x" using x by (rule floor_log2_bounds)
    then have "2 powr (of_int ?t) / ?u \<le> x / ?u" by (simp add: divide_right_mono)
    moreover have "2 powr (of_int ?t) / ?u = 2 powr 52"
      by (simp add: powr_diff [symmetric])
    ultimately have "of_int (2 ^ 52) \<le> x / ?u" by simp
    then have "2 ^ 52 \<le> round_half_even (x / ?u)" by (rule round_half_even_ge)
    then have "(2 ^ 52 :: real) \<le> of_int (round_half_even (x / ?u))"
      by (metis of_int_le_iff of_int_numeral of_int_power)
    then have "2 ^ 52 * 2 \<le> of_int (round_half_even (x / ?u)) * ?u"
      using u by (intro mult_mono) simp_all
    moreover have "of_int K < (2 ^ 53 :: real)" using assms(3)
      by (metis of_int_less_iff of_int_numeral of_int_power)
    ultimately have "of_int K \<le> of_int (round_half_even (x / ?u)) * ?u" by simp
    then show ?thesis using x by (simp add: round_double_def Let_def)
  qed
qed

lemma n_below_double:
  assumes "0 < gamma" "gamma < 1" "N < 2 ^ 53"
  shows "0 \<le> \<lceil>round_double (gamma * real N)\<rceil>"
    and "\<lceil>round_double (gamma * real N)\<rceil> \<le> int N"
    and "\<lceil>round_double (gamma * real N)\<rceil> = \<lceil>gamma * real N\<rceil>
         \<or> \<lceil>round_double (gamma * real N)\<rceil> = \<lceil>gamma * real N\<rceil> - 1"
proof -
  let ?x = "gamma * real N"
  let ?k = "\<lceil>?x\<rceil>"
  have x0: "0 \<le> ?x" using assms by simp
  have xN: "?x \<le> real N" using assms by (simp add: mult_left_le_one_le)
  have kN: "?k \<le> int N" using xN by (simp add: ceiling_le_iff)
  have N53: "int N < 2 ^ 53" using assms(3) by (metis of_nat_less_iff of_nat_numeral of_nat_power)
  have k53: "?k < 2 ^ 53" using kN N53 by linarith
  have "round_double ?x \<le> of_int ?k"
    using x0 _ k53 by (rule round_double_le_int) (simp add: le_of_int_ceiling)
  then have up: "\<lceil>round_double ?x\<rceil> \<le> ?k" by (simp add: ceiling_le_iff)
  have "of_int 0 \<le> round_double ?x"
    by (rule round_double_ge_int) (use x0 in simp_all)
  then have r0: "0 \<le> round_double ?x" by simp
  then show c0: "0 \<le> \<lceil>round_double ?x\<rceil>"
    using ceiling_mono[OF r0] by simp
  show "\<lceil>round_double ?x\<rceil> \<le> int N" using up kN by linarith
  have lo: "?k - 1 \<le> \<lceil>round_double ?x\<rceil>"
  proof (cases "?k \<le> 0")
    case True
    then show ?thesis using c0 by linarith
  next
    case False
    then have k1: "0 \<le> ?k - 1" by simp
    have "of_int (?k - 1) \<le> ?x"
      by (smt (verit) ceiling_correct of_int_diff of_int_1)
    then have "of_int (?k - 1) \<le> round_double ?x"
      using k1 k53 by (intro round_double_ge_int) simp_all
    also have "\<dots> \<le> of_int \<lceil>round_double ?x\<rceil>" by (rule le_of_int_ceiling)
    finally show ?thesis by (simp only: of_int_le_iff)
  qed
  from up lo show "\<lceil>round_double ?x\<rceil> = ?k \<or> \<lceil>round_double ?x\<rceil> = ?k - 1" by linarith
qed

lemma round_double_eval:
  assumes "2 ^ k \<le> x" "x < 2 ^ (k + 1)" "k \<le> 52"
  shows "round_double x = of_int (round_half_even (x * 2 ^ (52 - k))) / 2 ^ (52 - k)"
proof -
  have x: "0 < x" using assms(1) by (smt (verit) zero_less_power)
  have "(2::real) powr (of_int (int k)) = 2 ^ k" "(2::real) powr (of_int (int k) + 1) = 2 ^ (k + 1)"
    by (simp_all add: powr_realpow powr_add)
  then have "\<lfloor>log 2 x\<rfloor> = int k"
    using floor_log_eq_powr_iff[of x 2 "int k"] x assms(1,2) by simp
  moreover have "nat (52 - int k) = 52 - k" using assms(3) by simp
  ultimately show ?thesis
    using round_double_small_ulp[of x] x assms(3) by simp
qed

lemma round_double_eval_neg:
  assumes "1 / 2 ^ k \<le> x" "x < 2 / 2 ^ k"
  shows "round_double x = of_int (round_half_even (x * 2 ^ (52 + k))) / 2 ^ (52 + k)"
proof -
  have x: "0 < x" using assms(1) by (smt (verit) zero_less_power divide_pos_pos)
  have "(2::real) powr (of_int (- int k)) = 1 / 2 ^ k"
    by (simp add: powr_minus powr_realpow inverse_eq_divide)
  moreover have "(2::real) powr (of_int (- int k) + 1) = 2 / 2 ^ k"
    by (simp add: powr_diff powr_realpow)
  ultimately have "\<lfloor>log 2 x\<rfloor> = - int k"
    using floor_log_eq_powr_iff[of x 2 "- int k"] x assms by simp
  moreover have "nat (52 - (- int k)) = 52 + k" by simp
  ultimately show ?thesis
    using round_double_small_ulp[of x] x by simp
qed

lemma round_double_of_nat:
  assumes "N < 2 ^ 53"
  shows "round_double (real N) = real N"
proof -
  have N53: "int N < 2 ^ 53" using assms by (metis of_nat_less_iff of_nat_numeral of_nat_power)
  have "round_double (real N) \<le> of_int (int N)"
    using N53 by (intro round_double_le_int) simp_all
  moreover have "of_int (int N) \<le> round_double (real N)"
    using N53 by (intro round_double_ge_int) simp_all
  ultimately show ?thesis by simp
qed

lemma n_below_range:
  assumes "0 < gamma" "gamma < 1" "N < 2 ^ 53"
  shows "0 \<le> n_below_of gamma N" "n_below_of gamma N \<le> int N"
    "n_below_of gamma N = \<lceil>gamma * real N\<rceil> \<or> n_below_of gamma N = \<lceil>gamma * real N\<rceil> - 1"
  unfolding n_below_of_def round_double_of_nat[OF assms(3)]
  by (rule n_below_double[OF assms])+

lemma double_one_fifth:
  "round_double (3602879701896397 / 18014398509481984) = 3602879701896397 / 18014398509481984"
proof -
  have "round_double (3602879701896397 / 18014398509481984) =
      of_int (round_half_even (3602879701896397 / 18014398509481984 * 2 ^ (52 + 3))) / 2 ^ (52 + 3)"
    by (rule round_double_eval_neg) simp_all
  also have "round_half_even (3602879701896397 / 18014398509481984 * 2 ^ (52 + 3)) = 7205759403792794"
    by (simp add: round_half_even_def Let_def)
  finally show ?thesis by simp
qed

lemma n_below_of_one_fifth: "n_below_of (3602879701896397 / 18014398509481984) 5 = 1"
proof -
  have "round_double (18014398509481985 / 18014398509481984) =
      of_int (round_half_even (18014398509481985 / 18014398509481984 * 2 ^ (52 - 0))) / 2 ^ (52 - 0)"
    by (rule round_double_eval) simp_all
  also have "round_half_even (18014398509481985 / 18014398509481984 * 2 ^ (52 - 0)) = 4503599627370496"
    by (simp add: round_half_even_def Let_def)
  finally have "round_double (18014398509481985 / 18014398509481984) = 1" by simp
  moreover have "round_double (real 5) = real 5" by (rule round_double_of_nat) simp
  ultimately show ?thesis by (simp add: n_below_of_def)
qed

lemma double_seven_hundredths:
  "round_double (7 / 100) = 1261007895663739 / 18014398509481984"
proof -
  have "round_double (7 / 100) =
      of_int (round_half_even (7 / 100 * 2 ^ (52 + 4))) / 2 ^ (52 + 4)"
    by (rule round_double_eval_neg) simp_all
  also have "round_half_even (7 / 100 * 2 ^ (52 + 4)) = 5044031582654956"
    by (simp add: round_half_even_def Let_def)
  finally show ?thesis by simp
qed

lemma n_below_of_seven_hundredths: "n_below_of (round_double (7 / 100)) 100 = 8"
proof -
  have "round_double (31525197391593475 / 4503599627370496) =
      of_int (round_half_even (31525197391593475 / 4503599627370496 * 2 ^ (52 - 2))) / 2 ^ (52 - 2)"
    by (rule round_double_eval) simp_all
  also have "round_half_even (31525197391593475 / 4503599627370496 * 2 ^ (52 - 2)) = 7881299347898369"
    by (simp add: round_half_even_def Let_def)
  finally have r: "round_double (31525197391593475 / 4503599627370496) = 7881299347898369 / 1125899906842624"
    by simp
  have n: "round_double (real 100) = real 100" by (rule round_double_of_nat) simp
  have p: "1261007895663739 / 18014398509481984 * real 100 = (31525197391593475 / 4503599627370496 :: real)"
    by simp
  show ?thesis by (simp only: n_below_of_def double_seven_hundredths n p r) simp
qed

lemma double_half: "round_double (1 / 2) = 1 / 2"
proof -
  have "round_double (1 / 2) = of_int (round_half_even (1 / 2 * 2 ^ (52 + 1))) / 2 ^ (52 + 1)"
    by (rule round_double_eval_neg) simp_all
  also have "round_half_even (1 / 2 * 2 ^ (52 + 1)) = 4503599627370496"
    by (simp add: round_half_even_def Let_def)
  finally show ?thesis by simp
qed

lemma n_below_of_half: "n_below_of (1 / 2) 4 = 2"
proof -
  have "round_double 2 = of_int (round_half_even (2 * 2 ^ (52 - 1))) / 2 ^ (52 - 1)"
    by (rule round_double_eval) simp_all
  also have "round_half_even (2 * 2 ^ (52 - 1)) = 4503599627370496"
    by (simp add: round_half_even_def Let_def)
  finally have "round_double 2 = 2" by simp
  moreover have "round_double (real 4) = real 4" by (rule round_double_of_nat) simp
  ultimately show ?thesis by (simp add: n_below_of_def)
qed

lemma n_below_of_half_Suc: "n_below_of (1 / 2) (Suc (Suc (Suc (Suc 0)))) = 2"
proof -
  have "(4::nat) = Suc (Suc (Suc (Suc 0)))" by simp
  then show ?thesis using n_below_of_half by (simp only:)
qed

lemma n_below_of_one_fifth_Suc:
  "n_below_of (3602879701896397 / 18014398509481984) (Suc (Suc (Suc (Suc (Suc 0))))) = 1"
proof -
  have "(5::nat) = Suc (Suc (Suc (Suc (Suc 0))))" by simp
  then show ?thesis using n_below_of_one_fifth by (simp only:)
qed

lemma fancy_index_checked_ok:
  "\<forall>j\<in>set idx. j < length a \<Longrightarrow> fancy_index_checked a idx = Inr (fancy_index a idx)"
  by (auto simp: fancy_index_checked_def list_ex_iff)

lemma fancy_index_distinct:
  assumes "distinct a" "distinct idx" "\<forall>j\<in>set idx. j < length a"
  shows "distinct (fancy_index a idx)"
  unfolding fancy_index_def distinct_map
  using assms by (auto simp: inj_on_def nth_eq_iff_index_eq)

lemma fancy_index_disjoint:
  assumes "distinct a" "set xs \<inter> set ys = {}" "\<forall>j\<in>set xs \<union> set ys. j < length a"
  shows "set (fancy_index a xs) \<inter> set (fancy_index a ys) = {}"
proof -
  have "a ! i \<noteq> a ! j" if "i \<in> set xs" "j \<in> set ys" for i j
  proof -
    have "i \<noteq> j" using that assms(2) by auto
    moreover have "i < length a" "j < length a" using that assms(3) by auto
    ultimately show ?thesis using assms(1) by (simp add: nth_eq_iff_index_eq)
  qed
  then show ?thesis by (auto simp: fancy_index_def)
qed

lemma sorted_fst_sort: "sorted (map fst (sort (ps :: (int \<times> real) list)))"
proof -
  have "sorted (sort ps)" by simp
  then have "sorted_wrt (\<lambda>x y. fst x \<le> fst y) (sort ps)"
    by (rule sorted_wrt_mono_rel[rotated]) (auto simp: less_eq_prod_def)
  then show ?thesis by (simp add: sorted_map)
qed

lemma kept_trials_sorted: "sorted (map fst (kept_trials o_idxs o_vals keep))"
  by (simp add: kept_trials_def sorted_fst_sort del: sort_key_simps)

lemma kept_trials_mset:
  "mset (kept_trials o_idxs o_vals keep) = mset (filter (\<lambda>(i, v). i \<in> keep) (zip o_idxs o_vals))"
  by (simp add: kept_trials_def)

lemma keep_idxs_example_below:
  "keep_idxs [1, 2, 3, 4] [5, 1, 7, 3] (1 / 2) ''below_gamma'' = Inr {2, 4}"
  by (simp add: keep_idxs_def n_below_of_half_Suc argsort_def py_take_def fancy_index_checked_def
      fancy_index_def upt_rec insert_commute)

lemma keep_idxs_example_above:
  "keep_idxs [1, 2, 3, 4] [5, 1, 7, 3] (1 / 2) ''above_gamma'' = Inr {1, 3}"
  by (simp add: keep_idxs_def n_below_of_half_Suc argsort_def py_drop_def fancy_index_checked_def
      fancy_index_def upt_rec insert_commute)

lemma kept_trials_example_below: "kept_trials [4, 2, 3, 1] [10, 20, 30, 40] {2, 4} = [(2, 20), (4, 10)]"
  by (simp add: kept_trials_def less_eq_prod_def)

lemma kept_trials_example_above: "kept_trials [4, 2, 3, 1] [10, 20, 30, 40] {1, 3} = [(1, 40), (3, 30)]"
  by (simp add: kept_trials_def less_eq_prod_def)

lemma keep_idxs_example_one_fifth:
  "keep_idxs [1, 2, 3, 4, 5] [5, 1, 7, 3, 9] (3602879701896397 / 18014398509481984)
     ''below_gamma'' = Inr {2}"
  by (simp add: keep_idxs_def n_below_of_one_fifth_Suc argsort_def py_take_def
      fancy_index_checked_def fancy_index_def upt_rec insert_commute)

text \<open>
  C7.  For a loss record of \<open>N < 2 ^ 53\<close> values with distinct tids and a double
  \<open>0 < gamma < 1\<close>, the below set has \<open>n_below\<close> tids, where \<open>n_below\<close> is the ceiling of the
  product \<open>gamma * N\<close> as rounded to a double, and the above set has the other
  \<open>N - n_below\<close>; \<open>n_below\<close> is \<open>ceil (gamma * N)\<close> or one less; the two sets are disjoint,
  and on either side the values returned are those of the kept \<open>(tid, value)\<close> pairs in
  ascending order of tid.
\<close>

theorem ap_filter_trials_split:
  assumes "distinct l_idxs" "length l_idxs = length l_vals" "0 < gamma" "gamma < 1"
    and "round_double gamma = gamma" "length l_vals < 2 ^ 53"
  shows "\<exists>below above.
     keep_idxs l_idxs l_vals gamma ''below_gamma'' = Inr below \<and>
     keep_idxs l_idxs l_vals gamma ''above_gamma'' = Inr above \<and>
     int (card below) = n_below_of gamma (length l_vals) \<and>
     int (card above) = int (length l_vals) - n_below_of gamma (length l_vals) \<and>
     (n_below_of gamma (length l_vals) = \<lceil>gamma * real (length l_vals)\<rceil> \<or>
      n_below_of gamma (length l_vals) = \<lceil>gamma * real (length l_vals)\<rceil> - 1) \<and>
     below \<inter> above = {} \<and>
     ap_filter_trials o_idxs o_vals l_idxs l_vals gamma ''below_gamma'' =
       Inr (map snd (kept_trials o_idxs o_vals below)) \<and>
     ap_filter_trials o_idxs o_vals l_idxs l_vals gamma ''above_gamma'' =
       Inr (map snd (kept_trials o_idxs o_vals above)) \<and>
     sorted (map fst (kept_trials o_idxs o_vals below)) \<and>
     sorted (map fst (kept_trials o_idxs o_vals above)) \<and>
     mset (kept_trials o_idxs o_vals below) =
       mset (filter (\<lambda>(i, v). i \<in> below) (zip o_idxs o_vals)) \<and>
     mset (kept_trials o_idxs o_vals above) =
       mset (filter (\<lambda>(i, v). i \<in> above) (zip o_idxs o_vals))"
proof -
  let ?N = "length l_vals"
  let ?order = "argsort l_vals"
  note nb = n_below_range[OF assms(3,4,6)]
  obtain k where k: "n_below_of gamma ?N = int k" "k \<le> ?N"
    using nb(1,2) by (metis nonneg_int_cases of_nat_le_iff)
  let ?lo = "take k ?order"
  let ?hi = "drop k ?order"
  let ?below = "set (fancy_index l_idxs ?lo)"
  let ?above = "set (fancy_index l_idxs ?hi)"
  have in_range: "\<forall>j\<in>set ?order. j < length l_idxs"
    using assms(2) by (simp add: argsort_props)
  have lo_range: "\<forall>j\<in>set ?lo. j < length l_idxs"
    using in_range by (auto dest: in_set_takeD)
  have hi_range: "\<forall>j\<in>set ?hi. j < length l_idxs"
    using in_range by (auto dest: in_set_dropD)
  have kb: "keep_idxs l_idxs l_vals gamma ''below_gamma'' = Inr ?below"
    by (simp add: keep_idxs_def k(1) py_take_def fancy_index_checked_ok[OF lo_range])
  have ka: "keep_idxs l_idxs l_vals gamma ''above_gamma'' = Inr ?above"
    by (simp add: keep_idxs_def k(1) py_drop_def fancy_index_checked_ok[OF hi_range])
  have "distinct (fancy_index l_idxs ?lo)"
    using assms(1) lo_range by (intro fancy_index_distinct) (simp_all add: argsort_props)
  then have "card ?below = length (fancy_index l_idxs ?lo)"
    by (rule distinct_card)
  then have "card ?below = k"
    using k(2) by (simp add: fancy_index_def argsort_props)
  then have cb: "int (card ?below) = n_below_of gamma ?N"
    by (simp only: k(1))
  have "distinct (fancy_index l_idxs ?hi)"
    using assms(1) hi_range by (intro fancy_index_distinct) (simp_all add: argsort_props)
  then have "card ?above = length (fancy_index l_idxs ?hi)"
    by (rule distinct_card)
  then have "card ?above = ?N - k"
    by (simp add: fancy_index_def argsort_props)
  then have ca: "int (card ?above) = int ?N - n_below_of gamma ?N"
    using k(2) by (simp only: k(1) of_nat_diff)
  have "set ?lo \<inter> set ?hi = {}"
    by (rule set_take_disj_set_drop_if_distinct) (simp_all add: argsort_props)
  then have dj: "?below \<inter> ?above = {}"
    using assms(1) lo_range hi_range by (intro fancy_index_disjoint) auto
  have fb: "ap_filter_trials o_idxs o_vals l_idxs l_vals gamma ''below_gamma'' =
       Inr (map snd (kept_trials o_idxs o_vals ?below))"
    by (simp only: ap_filter_trials_def kb sum.case)
  have fa: "ap_filter_trials o_idxs o_vals l_idxs l_vals gamma ''above_gamma'' =
       Inr (map snd (kept_trials o_idxs o_vals ?above))"
    by (simp only: ap_filter_trials_def ka sum.case)
  show ?thesis
    by (rule exI[of _ ?below], rule exI[of _ ?above])
       (intro conjI kb ka cb ca nb(3) dj fb fa kept_trials_sorted kept_trials_mset)
qed

theorem ap_filter_trials_split_witness:
  "distinct [1, 2, 3, 4 :: int] \<and> length [1, 2, 3, 4 :: int] = length [5, 1, 7, 3 :: real]
   \<and> (0::real) < 1 / 2 \<and> (1::real) / 2 < 1
   \<and> round_double (1 / 2) = 1 / 2 \<and> length [5, 1, 7, 3 :: real] < 2 ^ 53
   \<and> keep_idxs [1, 2, 3, 4] [5, 1, 7, 3] (1 / 2) ''below_gamma'' = Inr {2, 4}
   \<and> keep_idxs [1, 2, 3, 4] [5, 1, 7, 3] (1 / 2) ''above_gamma'' = Inr {1, 3}
   \<and> int (card {2, 4 :: int}) = n_below_of (1 / 2) (length [5, 1, 7, 3 :: real])
   \<and> {2, 4 :: int} \<inter> {1, 3} = {}
   \<and> ap_filter_trials [4, 2, 3, 1] [10, 20, 30, 40] [1, 2, 3, 4] [5, 1, 7, 3] (1 / 2)
         ''below_gamma'' = Inr [20, 10]
   \<and> ap_filter_trials [4, 2, 3, 1] [10, 20, 30, 40] [1, 2, 3, 4] [5, 1, 7, 3] (1 / 2)
         ''above_gamma'' = Inr [40, 30]"
proof -
  have h1: "distinct [1, 2, 3, 4 :: int]" by simp
  have h2: "length [1, 2, 3, 4 :: int] = length [5, 1, 7, 3 :: real]" by simp
  have h3: "(0::real) < 1 / 2" and h4: "(1::real) / 2 < 1" by simp_all
  have h5: "round_double (1 / 2) = 1 / 2" by (rule double_half)
  have h6: "length [5, 1, 7, 3 :: real] < 2 ^ 53" by simp
  from ap_filter_trials_split[OF h1 h2 h3 h4 h5 h6, of "[4, 2, 3, 1]" "[10, 20, 30, 40]"]
  obtain below above where r:
    "keep_idxs [1, 2, 3, 4] [5, 1, 7, 3] (1 / 2) ''below_gamma'' = Inr below"
    "keep_idxs [1, 2, 3, 4] [5, 1, 7, 3] (1 / 2) ''above_gamma'' = Inr above"
    "int (card below) = n_below_of (1 / 2) (length [5, 1, 7, 3 :: real])"
    "below \<inter> above = {}"
    "ap_filter_trials [4, 2, 3, 1] [10, 20, 30, 40] [1, 2, 3, 4] [5, 1, 7, 3] (1 / 2)
       ''below_gamma'' = Inr (map snd (kept_trials [4, 2, 3, 1] [10, 20, 30, 40] below))"
    "ap_filter_trials [4, 2, 3, 1] [10, 20, 30, 40] [1, 2, 3, 4] [5, 1, 7, 3] (1 / 2)
       ''above_gamma'' = Inr (map snd (kept_trials [4, 2, 3, 1] [10, 20, 30, 40] above))"
    by blast
  have b: "below = {2, 4}" using r(1) by (simp only: keep_idxs_example_below sum.inject)
  have a: "above = {1, 3}" using r(2) by (simp only: keep_idxs_example_above sum.inject)
  have vb: "map snd (kept_trials [4, 2, 3, 1] [10, 20, 30, 40] {2, 4}) = [20, 10]"
    by (simp only: kept_trials_example_below list.map snd_conv)
  have va: "map snd (kept_trials [4, 2, 3, 1] [10, 20, 30, 40] {1, 3}) = [40, 30]"
    by (simp only: kept_trials_example_above list.map snd_conv)
  show ?thesis
    using r h1 h2 h3 h4 h5 h6 unfolding a b va vb by (intro conjI)
qed

text \<open>
  The count is not always \<open>ceil (gamma * N)\<close>.  The double written \<^verbatim>\<open>0.2\<close> is
  \<open>3602879701896397 / 2 ^ 54\<close>, a little above one fifth; five times it is \<open>1 + 2 ^ (- 54)\<close>,
  which rounds to \<open>1.0\<close>: of five trials the below set keeps one, not the two of the exact
  ceiling.  In the other direction the double written \<^verbatim>\<open>0.07\<close> times \<open>100\<close> rounds to the
  double next above \<open>7\<close>: of a hundred trials the below set keeps eight, where the ceiling
  of the decimal product is seven.
\<close>

theorem ap_filter_trials_split_counterexample:
  "round_double (3602879701896397 / 18014398509481984) = 3602879701896397 / 18014398509481984
   \<and> distinct [1, 2, 3, 4, 5 :: int]
   \<and> keep_idxs [1, 2, 3, 4, 5] [5, 1, 7, 3, 9] (3602879701896397 / 18014398509481984)
        ''below_gamma'' = Inr {2}
   \<and> card {2 :: int} = 1
   \<and> \<lceil>(3602879701896397 / 18014398509481984 :: real) * real (length [5, 1, 7, 3, 9 :: real])\<rceil> = 2
   \<and> n_below_of (round_double (7 / 100)) 100 = 8
   \<and> \<lceil>(7 / 100 :: real) * real 100\<rceil> = 7"
proof (intro conjI)
  show "round_double (3602879701896397 / 18014398509481984) = 3602879701896397 / 18014398509481984"
    by (rule double_one_fifth)
  show "keep_idxs [1, 2, 3, 4, 5] [5, 1, 7, 3, 9] (3602879701896397 / 18014398509481984)
        ''below_gamma'' = Inr {2}"
    by (rule keep_idxs_example_one_fifth)
  show "n_below_of (round_double (7 / 100)) 100 = 8"
    by (rule n_below_of_seven_hundredths)
qed simp_all

subsection \<open>Trial deduplication\<close>

lemma best_inv_Nil: "best_inv [] ([], [])"
  by (simp add: best_inv_def)

lemma best_inv_skip:
  assumes "best_inv xs (bd, bl)" "status x \<noteq> STATUS_OK"
  shows "best_inv (xs @ [x]) (best_step x (bd, bl))"
  using assms by (simp add: best_inv_def best_step_def ok_in_group_def)

lemma best_inv_new:
  assumes inv: "best_inv xs (bd, bl)" and ok: "status x = STATUS_OK"
    and new: "map_of bd (doc_group x) = None"
  shows "best_inv (xs @ [x]) (best_step x (bd, bl))"
proof -
  let ?g = "doc_group x"
  have bl: "map_of bl ?g = None" using inv new by (simp add: best_inv_def)
  have step: "best_step x (bd, bl) = (AList.update ?g x bd, AList.update ?g (loss x) bl)"
    using ok bl by (simp add: best_step_def Let_def)
  have none: "\<not> (\<exists>e\<in>set xs. ok_in_group ?g e)" using inv new by (simp add: best_inv_def)
  then have f: "filter (\<lambda>e. ok_in_group ?g e \<and> loss e = loss x) xs = []"
    by (auto simp: filter_empty_conv)
  show ?thesis
    unfolding step best_inv_def prod.case
  proof (intro conjI allI impI)
    show "distinct (map fst (AList.update ?g x bd))"
      using inv by (simp add: best_inv_def distinct_update)
  next
    fix g show "(map_of (AList.update ?g x bd) g = None) = (\<not> (\<exists>e\<in>set (xs @ [x]). ok_in_group g e))"
      using inv ok by (auto simp: best_inv_def update_conv' ok_in_group_def)
  next
    fix g show "map_of (AList.update ?g (loss x) bl) g =
        map_option loss (map_of (AList.update ?g x bd) g)"
      using inv by (simp add: best_inv_def update_conv')
  next
    fix g d assume d: "map_of (AList.update ?g x bd) g = Some d"
    show "ok_in_group g d"
      using inv d ok by (auto simp: best_inv_def update_conv' ok_in_group_def split: if_splits)
    show "d \<in> set (xs @ [x])"
      using inv d by (auto simp: best_inv_def update_conv' split: if_splits)
    show "\<forall>e\<in>set (xs @ [x]). ok_in_group g e \<longrightarrow> loss d \<le> loss e"
    proof (cases "g = ?g")
      case True
      then show ?thesis using d none by (auto simp: update_conv')
    next
      case False
      then show ?thesis using inv d by (auto simp: best_inv_def update_conv' ok_in_group_def)
    qed
    show "d = last (filter (\<lambda>e. ok_in_group g e \<and> loss e = loss d) (xs @ [x]))"
    proof (cases "g = ?g")
      case True
      then show ?thesis using d ok f by (simp add: update_conv' ok_in_group_def)
    next
      case False
      then have "map_of bd g = Some d" using d by (simp add: update_conv')
      then have "d = last (filter (\<lambda>e. ok_in_group g e \<and> loss e = loss d) xs)"
        using inv by (simp add: best_inv_def)
      then show ?thesis using False by (simp add: ok_in_group_def)
    qed
  qed
qed


lemma best_inv_old:
  assumes inv: "best_inv xs (bd, bl)" and ok: "status x = STATUS_OK"
    and old: "map_of bd (doc_group x) = Some d0"
  shows "best_inv (xs @ [x]) (best_step x (bd, bl))"
proof -
  let ?g = "doc_group x"
  have bl: "map_of bl ?g = Some (loss d0)" using inv old by (simp add: best_inv_def)
  have d0: "ok_in_group ?g d0" "d0 \<in> set xs"
    "\<forall>e\<in>set xs. ok_in_group ?g e \<longrightarrow> loss d0 \<le> loss e"
    "d0 = last (filter (\<lambda>e. ok_in_group ?g e \<and> loss e = loss d0) xs)"
    using inv old by (simp_all add: best_inv_def)
  have dist: "distinct (map fst bd)" using inv by (simp add: best_inv_def)
  have dom: "(map_of bd g = None) = (\<not> (\<exists>e\<in>set xs. ok_in_group g e))" for g
    using inv by (simp add: best_inv_def)
  have losses: "map_of bl g = map_option loss (map_of bd g)" for g
    using inv by (simp add: best_inv_def)
  have rest: "ok_in_group g d \<and> d \<in> set xs \<and>
        (\<forall>e\<in>set xs. ok_in_group g e \<longrightarrow> loss d \<le> loss e) \<and>
        d = last (filter (\<lambda>e. ok_in_group g e \<and> loss e = loss d) xs)"
    if "map_of bd g = Some d" for g d
    using inv that by (simp add: best_inv_def)
  have xg: "ok_in_group ?g x" using ok by (simp add: ok_in_group_def)
  show ?thesis
  proof (cases "loss x \<le> loss d0")
    case True
    have step: "best_step x (bd, bl) = (AList.update ?g x bd, AList.update ?g (loss x) bl)"
      using ok bl True by (simp add: best_step_def Let_def)
    show ?thesis
      unfolding step best_inv_def prod.case
    proof (intro conjI allI impI)
      show "distinct (map fst (AList.update ?g x bd))"
        using dist by (simp add: distinct_update)
    next
      fix g show "(map_of (AList.update ?g x bd) g = None) = (\<not> (\<exists>e\<in>set (xs @ [x]). ok_in_group g e))"
        using dom[of g] xg by (auto simp: update_conv' ok_in_group_def)
    next
      fix g show "map_of (AList.update ?g (loss x) bl) g =
          map_option loss (map_of (AList.update ?g x bd) g)"
        using losses[of g] by (simp add: update_conv')
    next
      fix g d assume d: "map_of (AList.update ?g x bd) g = Some d"
      show "ok_in_group g d"
        using rest[of g d] d xg by (auto simp: update_conv' split: if_splits)
      show "d \<in> set (xs @ [x])"
        using rest[of g d] d by (auto simp: update_conv' split: if_splits)
      show "\<forall>e\<in>set (xs @ [x]). ok_in_group g e \<longrightarrow> loss d \<le> loss e"
      proof (cases "g = ?g")
        case g: True
        then have "d = x" using d by (simp add: update_conv')
        then show ?thesis using g d0(3) True by auto
      next
        case False
        then show ?thesis using rest[of g d] d by (auto simp: update_conv' ok_in_group_def)
      qed
      show "d = last (filter (\<lambda>e. ok_in_group g e \<and> loss e = loss d) (xs @ [x]))"
      proof (cases "g = ?g")
        case g: True
        then have "d = x" using d by (simp add: update_conv')
        then show ?thesis using g xg by simp
      next
        case False
        then have "map_of bd g = Some d" using d by (simp add: update_conv')
        then have "d = last (filter (\<lambda>e. ok_in_group g e \<and> loss e = loss d) xs)"
          using rest by blast
        then show ?thesis using False by (simp add: ok_in_group_def)
      qed
    qed
  next
    case False
    have step: "best_step x (bd, bl) = (bd, bl)"
      using ok bl False by (simp add: best_step_def Let_def)
    show ?thesis
      unfolding step best_inv_def prod.case
    proof (intro conjI allI impI)
      show "distinct (map fst bd)" by (rule dist)
    next
      fix g show "(map_of bd g = None) = (\<not> (\<exists>e\<in>set (xs @ [x]). ok_in_group g e))"
        using dom[of g] old xg by (auto simp: ok_in_group_def)
    next
      fix g show "map_of bl g = map_option loss (map_of bd g)" by (rule losses)
    next
      fix g d assume d: "map_of bd g = Some d"
      show "ok_in_group g d" using rest[OF d] by simp
      show "d \<in> set (xs @ [x])" using rest[OF d] by simp
      show "\<forall>e\<in>set (xs @ [x]). ok_in_group g e \<longrightarrow> loss d \<le> loss e"
      proof (cases "g = ?g")
        case True
        then have "d = d0" using d old by simp
        then show ?thesis using True d0(3) False by auto
      next
        case g: False
        then show ?thesis using rest[OF d] by (auto simp: ok_in_group_def)
      qed
      show "d = last (filter (\<lambda>e. ok_in_group g e \<and> loss e = loss d) (xs @ [x]))"
      proof (cases "g = ?g")
        case True
        then have "d = d0" using d old by simp
        then show ?thesis using True d0(4) False by auto
      next
        case g: False
        then show ?thesis using rest[OF d] by (simp add: ok_in_group_def)
      qed
    qed
  qed
qed

lemma best_inv_step:
  assumes "best_inv xs acc"
  shows "best_inv (xs @ [x]) (best_step x acc)"
proof -
  obtain bd bl where acc: "acc = (bd, bl)" by (cases acc)
  show ?thesis
  proof (cases "status x = STATUS_OK")
    case False
    then show ?thesis using assms acc best_inv_skip by blast
  next
    case True
    show ?thesis
    proof (cases "map_of bd (doc_group x)")
      case None
      then show ?thesis using assms acc True best_inv_new by blast
    next
      case (Some d0)
      then show ?thesis using assms acc True best_inv_old by blast
    qed
  qed
qed

lemma best_inv_best_docs_of: "best_inv trials (best_docs_of trials)"
proof (induction trials rule: rev_induct)
  case Nil
  then show ?case by (simp add: best_docs_of_def best_inv_Nil)
next
  case (snoc x xs)
  then show ?case using best_inv_step[of xs "best_docs_of xs" x]
    by (simp add: best_docs_of_def)
qed

text \<open>
  C6, as claimed, fails on ties: of two OK documents of one group with equal loss, the
  document kept is the second, since line 854 compares with \<open>\<le>\<close>.
\<close>

theorem suggest1_docs_tie_counterexample:
  "suggest1_docs
     [\<lparr>tid = 1, from_tid = None, status = ''ok'', loss = 0\<rparr>,
      \<lparr>tid = 2, from_tid = Some 1, status = ''ok'', loss = 0\<rparr>]
   = Inr [\<lparr>tid = 2, from_tid = Some 1, status = ''ok'', loss = 0\<rparr>]
   \<and> doc_group \<lparr>tid = 1, from_tid = None, status = ''ok'', loss = 0\<rparr>
     = doc_group \<lparr>tid = 2, from_tid = Some 1, status = ''ok'', loss = 0\<rparr>
   \<and> \<lparr>tid = 1, from_tid = None, status = ''ok'', loss = 0\<rparr>
     \<noteq> \<lparr>tid = 2, from_tid = Some 1, status = ''ok'', loss = (0::real)\<rparr>"
  by (simp add: suggest1_docs_def best_docs_of_def best_step_def STATUS_OK_def doc_group_def)

text \<open>
  C6 (amended).  For trials with unique tids, the documents kept are OK documents of the
  trials, exactly one per group (the groups of the OK documents, in ascending order); the
  document kept for a group has the lowest loss of the group's OK documents and is the
  last one encountered with that loss.
\<close>

theorem suggest1_docs_dedup:
  assumes "distinct (map tid trials)"
  shows "\<exists>docs. suggest1_docs trials = Inr docs \<and>
     sorted (map doc_group docs) \<and> distinct (map doc_group docs) \<and>
     set (map doc_group docs) = doc_group ` {e \<in> set trials. status e = STATUS_OK} \<and>
     (\<forall>d\<in>set docs. d \<in> set trials \<and> status d = STATUS_OK \<and>
        (\<forall>e\<in>set trials. status e = STATUS_OK \<and> doc_group e = doc_group d \<longrightarrow> loss d \<le> loss e) \<and>
        d = last (filter (\<lambda>e. status e = STATUS_OK \<and> doc_group e = doc_group d \<and> loss e = loss d) trials))"
proof -
  obtain bd bl where acc: "best_docs_of trials = (bd, bl)" by (cases "best_docs_of trials")
  have inv: "best_inv trials (bd, bl)" using best_inv_best_docs_of[of trials] acc by simp
  have dist: "distinct (map fst bd)" using inv by (simp add: best_inv_def)
  have dom: "(map_of bd g = None) = (\<not> (\<exists>e\<in>set trials. ok_in_group g e))" for g
    using inv by (simp add: best_inv_def)
  have rest: "ok_in_group g d \<and> d \<in> set trials \<and>
        (\<forall>e\<in>set trials. ok_in_group g e \<longrightarrow> loss d \<le> loss e) \<and>
        d = last (filter (\<lambda>e. ok_in_group g e \<and> loss e = loss d) trials)"
    if "(g, d) \<in> set bd" for g d
    using inv that dist by (simp add: best_inv_def)
  let ?items = "sort_key fst bd"
  let ?docs = "map snd ?items"
  have res: "suggest1_docs trials = Inr ?docs"
    using assms acc by (simp add: suggest1_docs_def)
  have grp: "doc_group (snd p) = fst p" if "p \<in> set bd" for p
    using rest[of "fst p" "snd p"] that by (simp add: ok_in_group_def)
  have keys: "map doc_group ?docs = map fst ?items"
    using grp by (simp add: comp_def)
  have srt: "sorted (map doc_group ?docs)"
    unfolding keys by (rule sorted_sort_key)
  have "mset (map fst ?items) = mset (map fst bd)" by simp
  then have dst: "distinct (map doc_group ?docs)"
    unfolding keys using dist by (metis mset_eq_imp_distinct_iff)
  have "(g \<in> fst ` set bd) = (\<exists>e\<in>set trials. ok_in_group g e)" for g
    using dom[of g] by (simp only: map_of_eq_None_iff) blast
  then have "fst ` set bd = {g. \<exists>e\<in>set trials. ok_in_group g e}"
    by blast
  then have grps: "set (map doc_group ?docs) = doc_group ` {e \<in> set trials. status e = STATUS_OK}"
    unfolding keys by (auto simp: ok_in_group_def)
  have each: "d \<in> set trials \<and> status d = STATUS_OK \<and>
        (\<forall>e\<in>set trials. status e = STATUS_OK \<and> doc_group e = doc_group d \<longrightarrow> loss d \<le> loss e) \<and>
        d = last (filter (\<lambda>e. status e = STATUS_OK \<and> doc_group e = doc_group d \<and> loss e = loss d) trials)"
    if "d \<in> set ?docs" for d
  proof -
    from that obtain g where gd: "(g, d) \<in> set bd" by auto
    from rest[OF gd] have g: "g = doc_group d" by (simp add: ok_in_group_def)
    from rest[OF gd] show ?thesis unfolding g ok_in_group_def by (simp add: conj_assoc)
  qed
  show ?thesis
    using res srt dst grps each by blast
qed

theorem suggest1_docs_dedup_witness:
  "distinct (map tid
     [\<lparr>tid = 1, from_tid = None, status = ''ok'', loss = 0\<rparr>,
      \<lparr>tid = 2, from_tid = Some 1, status = ''ok'', loss = 0\<rparr>,
      \<lparr>tid = 3, from_tid = Some 1, status = ''ok'', loss = 4\<rparr>])
   \<and> suggest1_docs
     [\<lparr>tid = 1, from_tid = None, status = ''ok'', loss = 0\<rparr>,
      \<lparr>tid = 2, from_tid = Some 1, status = ''ok'', loss = 0\<rparr>,
      \<lparr>tid = 3, from_tid = Some 1, status = ''ok'', loss = 4\<rparr>]
     = Inr [\<lparr>tid = 2, from_tid = Some 1, status = ''ok'', loss = 0\<rparr>]
   \<and> \<lparr>tid = 2, from_tid = Some 1, status = ''ok'', loss = 0\<rparr>
     = last (filter (\<lambda>e. status e = STATUS_OK
                \<and> doc_group e = doc_group \<lparr>tid = 2, from_tid = Some 1, status = ''ok'', loss = 0\<rparr>
                \<and> loss e = loss \<lparr>tid = 2, from_tid = Some 1, status = ''ok'', loss = 0\<rparr>)
          [\<lparr>tid = 1, from_tid = None, status = ''ok'', loss = 0\<rparr>,
           \<lparr>tid = 2, from_tid = Some 1, status = ''ok'', loss = 0\<rparr>,
           \<lparr>tid = 3, from_tid = Some 1, status = ''ok'', loss = 4\<rparr>])"
proof -
  let ?T = "[\<lparr>tid = 1, from_tid = None, status = ''ok'', loss = 0\<rparr>,
      \<lparr>tid = 2, from_tid = Some 1, status = ''ok'', loss = 0\<rparr>,
      \<lparr>tid = 3, from_tid = Some 1, status = ''ok'', loss = (4::real)\<rparr>]"
  let ?d = "\<lparr>tid = 2, from_tid = Some 1, status = ''ok'', loss = (0::real)\<rparr>"
  have h: "distinct (map tid ?T)" by simp
  have ev: "suggest1_docs ?T = Inr [?d]"
    by (simp add: suggest1_docs_def best_docs_of_def best_step_def STATUS_OK_def doc_group_def)
  from suggest1_docs_dedup[OF h] obtain docs where
    r: "suggest1_docs ?T = Inr docs"
       "\<forall>d\<in>set docs. d \<in> set ?T \<and> status d = STATUS_OK \<and>
          (\<forall>e\<in>set ?T. status e = STATUS_OK \<and> doc_group e = doc_group d \<longrightarrow> loss d \<le> loss e) \<and>
          d = last (filter (\<lambda>e. status e = STATUS_OK \<and> doc_group e = doc_group d \<and> loss e = loss d) ?T)"
    by blast
  have "docs = [?d]" using r(1) by (simp only: ev sum.inject)
  then have "?d \<in> set docs" by simp
  then have "?d = last (filter (\<lambda>e. status e = STATUS_OK \<and> doc_group e = doc_group ?d \<and> loss e = loss ?d) ?T)"
    using r(2) by blast
  with h ev show ?thesis by (intro conjI)
qed

subsection \<open>The rejection loops of GMM1 and LGMM1\<close>

lemma GMM1_attempt_accept:
  "GMM1_attempt rng weights mus sigmas low high q s = Inr (Some d, s') \<Longrightarrow> low \<le> d \<and> d < high"
  by (auto simp: GMM1_attempt_def Let_def split: sum.splits prod.splits if_splits option.splits)

lemma GMM1_attempt_zero_q:
  "\<exists>e. GMM1_attempt rng weights mus sigmas low high (Some 0) s = Inl e"
  by (simp add: GMM1_attempt_def split: sum.splits prod.splits)

lemma GMM1_loop_result_aux:
  assumes run: "GMM1_loop rng weights mus sigmas low high q n samples s = Some r"
  shows "length samples \<le> n \<longrightarrow> (\<forall>x\<in>set samples. low \<le> x \<and> x < high) \<longrightarrow>
   ((\<exists>e. r = Inl e \<and> (\<exists>s0. GMM1_attempt rng weights mus sigmas low high q s0 = Inl e)) \<or>
    (\<exists>out s'. r = Inr (out, s') \<and> length out = n \<and> (\<forall>x\<in>set out. low \<le> x \<and> x < high)))"
    (is "?P rng weights mus sigmas low high q n samples s r")
proof (rule GMM1_loop.raw_induct[where P = ?P, OF _ run])
  fix loop rng weights mus sigmas low high q n samples s r
  assume IH: "\<And>rng weights mus sigmas low high q n samples s r.
      loop rng weights mus sigmas low high q n samples s = Some r \<Longrightarrow>
      ?P rng weights mus sigmas low high q n samples s r"
    and eq: "(if length samples < n then
        (case GMM1_attempt rng weights mus sigmas low high q s of
           Inl e \<Rightarrow> Some (Inl e)
         | Inr (None, s') \<Rightarrow> loop rng weights mus sigmas low high q n samples s'
         | Inr (Some draw, s') \<Rightarrow> loop rng weights mus sigmas low high q n (samples @ [draw]) s')
      else Some (Inr (samples, s))) = Some r"
  show "?P rng weights mus sigmas low high q n samples s r"
  proof (intro impI)
    assume len: "length samples \<le> n" and bnd: "\<forall>x\<in>set samples. low \<le> x \<and> x < high"
    show "(\<exists>e. r = Inl e \<and> (\<exists>s0. GMM1_attempt rng weights mus sigmas low high q s0 = Inl e)) \<or>
      (\<exists>out s'. r = Inr (out, s') \<and> length out = n \<and> (\<forall>x\<in>set out. low \<le> x \<and> x < high))"
    proof (cases "length samples < n")
      case False
      then show ?thesis using eq len bnd by auto
    next
      case True
      show ?thesis
      proof (cases "GMM1_attempt rng weights mus sigmas low high q s")
        case (Inl e)
        then show ?thesis using eq True by auto
      next
        case (Inr p)
        obtain d s' where p: "p = (d, s')" by (cases p)
        show ?thesis
        proof (cases d)
          case None
          then have "loop rng weights mus sigmas low high q n samples s' = Some r"
            using eq True Inr p by simp
          from IH[OF this] len bnd show ?thesis by blast
        next
          case (Some x)
          then have run: "loop rng weights mus sigmas low high q n (samples @ [x]) s' = Some r"
            using eq True Inr p by simp
          have "GMM1_attempt rng weights mus sigmas low high q s = Inr (Some x, s')"
            using Inr p Some by simp
          then have "low \<le> x \<and> x < high" by (rule GMM1_attempt_accept)
          then have "\<forall>y\<in>set (samples @ [x]). low \<le> y \<and> y < high" using bnd by auto
          moreover have "length (samples @ [x]) \<le> n" using True by simp
          ultimately show ?thesis using IH[OF run] by blast
        qed
      qed
    qed
  qed
qed

lemma GMM1_loop_diverges_aux:
  assumes run: "GMM1_loop rng weights mus sigmas low high q n samples s = Some r"
  shows "length samples < n \<longrightarrow>
     (\<forall>s0. \<exists>s1. GMM1_attempt rng weights mus sigmas low high q s0 = Inr (None, s1)) \<longrightarrow> False"
    (is "?P rng weights mus sigmas low high q n samples s r")
proof (rule GMM1_loop.raw_induct[where P = ?P, OF _ run])
  fix loop rng weights mus sigmas low high q n samples s r
  assume IH: "\<And>rng weights mus sigmas low high q n samples s r.
      loop rng weights mus sigmas low high q n samples s = Some r \<Longrightarrow>
      ?P rng weights mus sigmas low high q n samples s r"
    and eq: "(if length samples < n then
        (case GMM1_attempt rng weights mus sigmas low high q s of
           Inl e \<Rightarrow> Some (Inl e)
         | Inr (None, s') \<Rightarrow> loop rng weights mus sigmas low high q n samples s'
         | Inr (Some draw, s') \<Rightarrow> loop rng weights mus sigmas low high q n (samples @ [draw]) s')
      else Some (Inr (samples, s))) = Some r"
  show "?P rng weights mus sigmas low high q n samples s r"
  proof (intro impI)
    assume len: "length samples < n"
      and rej: "\<forall>s0. \<exists>s1. GMM1_attempt rng weights mus sigmas low high q s0 = Inr (None, s1)"
    from rej obtain s1 where "GMM1_attempt rng weights mus sigmas low high q s = Inr (None, s1)"
      by blast
    then have "loop rng weights mus sigmas low high q n samples s1 = Some r"
      using eq len by simp
    from IH[OF this] len rej show False by blast
  qed
qed

lemma GMM1_loop_diverges:
  assumes "length samples < n"
    and "\<forall>s0. \<exists>s1. GMM1_attempt rng weights mus sigmas low high q s0 = Inr (None, s1)"
  shows "GMM1_loop rng weights mus sigmas low high q n samples s = None"
proof (cases "GMM1_loop rng weights mus sigmas low high q n samples s")
  case None
  then show ?thesis .
next
  case (Some r)
  from GMM1_loop_diverges_aux[OF Some] assms show ?thesis by blast
qed

lemma GMM1_loop_returns:
  assumes "\<forall>s0. \<exists>d s1. GMM1_attempt rng weights mus sigmas low high q s0 = Inr (Some d, s1)"
  shows "\<exists>out s'. GMM1_loop rng weights mus sigmas low high q n samples s = Some (Inr (out, s'))"
proof (induction "n - length samples" arbitrary: samples s)
  case 0
  then show ?case by (subst GMM1_loop.simps) simp
next
  case (Suc k)
  from assms obtain d s1 where a: "GMM1_attempt rng weights mus sigmas low high q s = Inr (Some d, s1)"
    by blast
  have "k = n - length (samples @ [d])" using Suc(2) by simp
  from Suc(1)[OF this, of s1] obtain out s' where
    "GMM1_loop rng weights mus sigmas low high q n (samples @ [d]) s1 = Some (Inr (out, s'))"
    by blast
  moreover have "length samples < n" using Suc(2) by simp
  ultimately show ?case using a by (subst GMM1_loop.simps) simp
qed

lemma GMM1_loop_within_sound:
  "GMM1_loop_within k rng weights mus sigmas low high q n samples s = Some r \<Longrightarrow>
   GMM1_loop rng weights mus sigmas low high q n samples s = Some r"
proof (induction k arbitrary: samples s)
  case 0
  then have "\<not> length samples < n" "r = Inr (samples, s)" by (simp_all split: if_splits)
  then show ?case by (subst GMM1_loop.simps) simp
next
  case (Suc k)
  show ?case
  proof (cases "length samples < n")
    case False
    then show ?thesis using Suc.prems by (subst GMM1_loop.simps) simp
  next
    case len: True
    show ?thesis
    proof (cases "GMM1_attempt rng weights mus sigmas low high q s")
      case (Inl e)
      then show ?thesis using len Suc.prems by (subst GMM1_loop.simps) simp
    next
      case (Inr p)
      obtain d s' where p: "p = (d, s')" by (cases p)
      show ?thesis
      proof (cases d)
        case None
        then have "GMM1_loop_within k rng weights mus sigmas low high q n samples s' = Some r"
          using Suc.prems len Inr p by simp
        from Suc.IH[OF this] show ?thesis using len Inr p None by (subst GMM1_loop.simps) simp
      next
        case (Some x)
        then have "GMM1_loop_within k rng weights mus sigmas low high q n (samples @ [x]) s' = Some r"
          using Suc.prems len Inr p by simp
        from Suc.IH[OF this] show ?thesis using len Inr p Some by (subst GMM1_loop.simps) simp
      qed
    qed
  qed
qed

lemma GMM1_loop_within_complete:
  assumes run: "GMM1_loop rng weights mus sigmas low high q n samples s = Some r"
  shows "\<exists>k. GMM1_loop_within k rng weights mus sigmas low high q n samples s = Some r"
    (is "?P rng weights mus sigmas low high q n samples s r")
proof (rule GMM1_loop.raw_induct[where P = ?P, OF _ run])
  fix loop rng weights mus sigmas low high q n samples s r
  assume IH: "\<And>rng weights mus sigmas low high q n samples s r.
      loop rng weights mus sigmas low high q n samples s = Some r \<Longrightarrow>
      ?P rng weights mus sigmas low high q n samples s r"
    and eq: "(if length samples < n then
        (case GMM1_attempt rng weights mus sigmas low high q s of
           Inl e \<Rightarrow> Some (Inl e)
         | Inr (None, s') \<Rightarrow> loop rng weights mus sigmas low high q n samples s'
         | Inr (Some draw, s') \<Rightarrow> loop rng weights mus sigmas low high q n (samples @ [draw]) s')
      else Some (Inr (samples, s))) = Some r"
  show "?P rng weights mus sigmas low high q n samples s r"
  proof (cases "length samples < n")
    case False
    then have "GMM1_loop_within 0 rng weights mus sigmas low high q n samples s = Some r"
      using eq by simp
    then show ?thesis ..
  next
    case True
    show ?thesis
    proof (cases "GMM1_attempt rng weights mus sigmas low high q s")
      case (Inl e)
      then have "GMM1_loop_within (Suc 0) rng weights mus sigmas low high q n samples s = Some r"
        using eq True by simp
      then show ?thesis ..
    next
      case (Inr p)
      obtain d s' where p: "p = (d, s')" by (cases p)
      show ?thesis
      proof (cases d)
        case None
        then have "loop rng weights mus sigmas low high q n samples s' = Some r"
          using eq True Inr p by simp
        from IH[OF this] obtain k where
          "GMM1_loop_within k rng weights mus sigmas low high q n samples s' = Some r" ..
        then have "GMM1_loop_within (Suc k) rng weights mus sigmas low high q n samples s = Some r"
          using True Inr p None by simp
        then show ?thesis ..
      next
        case (Some x)
        then have "loop rng weights mus sigmas low high q n (samples @ [x]) s' = Some r"
          using eq True Inr p by simp
        from IH[OF this] obtain k where
          "GMM1_loop_within k rng weights mus sigmas low high q n (samples @ [x]) s' = Some r" ..
        then have "GMM1_loop_within (Suc k) rng weights mus sigmas low high q n samples s = Some r"
          using True Inr p Some by simp
        then show ?thesis ..
      qed
    qed
  qed
qed

lemma GMM1_loop_iff_within:
  "GMM1_loop rng weights mus sigmas low high q n samples s = Some r \<longleftrightarrow>
   (\<exists>k. GMM1_loop_within k rng weights mus sigmas low high q n samples s = Some r)"
proof
  assume "GMM1_loop rng weights mus sigmas low high q n samples s = Some r"
  then show "\<exists>k. GMM1_loop_within k rng weights mus sigmas low high q n samples s = Some r"
    by (rule GMM1_loop_within_complete)
next
  assume "\<exists>k. GMM1_loop_within k rng weights mus sigmas low high q n samples s = Some r"
  then obtain k where "GMM1_loop_within k rng weights mus sigmas low high q n samples s = Some r" ..
  then show "GMM1_loop rng weights mus sigmas low high q n samples s = Some r"
    by (rule GMM1_loop_within_sound)
qed

lemma GMM1_loop_zero_q:
  assumes "0 < n"
  shows "\<exists>e. GMM1_loop rng weights mus sigmas low high (Some 0) n [] s = Some (Inl e)"
proof -
  from GMM1_attempt_zero_q[of rng weights mus sigmas low high s]
  obtain e where "GMM1_attempt rng weights mus sigmas low high (Some 0) s = Inl e" ..
  then have "GMM1_loop rng weights mus sigmas low high (Some 0) n [] s = Some (Inl e)"
    using assms by (subst GMM1_loop.simps) simp
  then show ?thesis ..
qed

lemma LGMM1_attempt_accept:
  "LGMM1_attempt rng weights mus sigmas low high q s = Inr (Some d, s') \<Longrightarrow> low \<le> d \<and> d < high"
  by (auto simp: LGMM1_attempt_def Let_def split: sum.splits prod.splits if_splits option.splits)

lemma LGMM1_loop_result_aux:
  assumes run: "LGMM1_loop rng weights mus sigmas low high q n samples s = Some r"
  shows "length samples \<le> n \<longrightarrow> (\<forall>x\<in>set samples. low \<le> x \<and> x < high) \<longrightarrow>
   ((\<exists>e. r = Inl e \<and> (\<exists>s0. LGMM1_attempt rng weights mus sigmas low high q s0 = Inl e)) \<or>
    (\<exists>out s'. r = Inr (out, s') \<and> length out = n \<and> (\<forall>x\<in>set out. low \<le> x \<and> x < high)))"
    (is "?P rng weights mus sigmas low high q n samples s r")
proof (rule LGMM1_loop.raw_induct[where P = ?P, OF _ run])
  fix loop rng weights mus sigmas low high q n samples s r
  assume IH: "\<And>rng weights mus sigmas low high q n samples s r.
      loop rng weights mus sigmas low high q n samples s = Some r \<Longrightarrow>
      ?P rng weights mus sigmas low high q n samples s r"
    and eq: "(if length samples < n then
        (case LGMM1_attempt rng weights mus sigmas low high q s of
           Inl e \<Rightarrow> Some (Inl e)
         | Inr (None, s') \<Rightarrow> loop rng weights mus sigmas low high q n samples s'
         | Inr (Some draw, s') \<Rightarrow> loop rng weights mus sigmas low high q n (samples @ [draw]) s')
      else Some (Inr (samples, s))) = Some r"
  show "?P rng weights mus sigmas low high q n samples s r"
  proof (intro impI)
    assume len: "length samples \<le> n" and bnd: "\<forall>x\<in>set samples. low \<le> x \<and> x < high"
    show "(\<exists>e. r = Inl e \<and> (\<exists>s0. LGMM1_attempt rng weights mus sigmas low high q s0 = Inl e)) \<or>
      (\<exists>out s'. r = Inr (out, s') \<and> length out = n \<and> (\<forall>x\<in>set out. low \<le> x \<and> x < high))"
    proof (cases "length samples < n")
      case False
      then show ?thesis using eq len bnd by auto
    next
      case True
      show ?thesis
      proof (cases "LGMM1_attempt rng weights mus sigmas low high q s")
        case (Inl e)
        then show ?thesis using eq True by auto
      next
        case (Inr p)
        obtain d s' where p: "p = (d, s')" by (cases p)
        show ?thesis
        proof (cases d)
          case None
          then have "loop rng weights mus sigmas low high q n samples s' = Some r"
            using eq True Inr p by simp
          from IH[OF this] len bnd show ?thesis by blast
        next
          case (Some x)
          then have run: "loop rng weights mus sigmas low high q n (samples @ [x]) s' = Some r"
            using eq True Inr p by simp
          have "LGMM1_attempt rng weights mus sigmas low high q s = Inr (Some x, s')"
            using Inr p Some by simp
          then have "low \<le> x \<and> x < high" by (rule LGMM1_attempt_accept)
          then have "\<forall>y\<in>set (samples @ [x]). low \<le> y \<and> y < high" using bnd by auto
          moreover have "length (samples @ [x]) \<le> n" using True by simp
          ultimately show ?thesis using IH[OF run] by blast
        qed
      qed
    qed
  qed
qed

lemma LGMM1_loop_diverges_aux:
  assumes run: "LGMM1_loop rng weights mus sigmas low high q n samples s = Some r"
  shows "length samples < n \<longrightarrow>
     (\<forall>s0. \<exists>s1. LGMM1_attempt rng weights mus sigmas low high q s0 = Inr (None, s1)) \<longrightarrow> False"
    (is "?P rng weights mus sigmas low high q n samples s r")
proof (rule LGMM1_loop.raw_induct[where P = ?P, OF _ run])
  fix loop rng weights mus sigmas low high q n samples s r
  assume IH: "\<And>rng weights mus sigmas low high q n samples s r.
      loop rng weights mus sigmas low high q n samples s = Some r \<Longrightarrow>
      ?P rng weights mus sigmas low high q n samples s r"
    and eq: "(if length samples < n then
        (case LGMM1_attempt rng weights mus sigmas low high q s of
           Inl e \<Rightarrow> Some (Inl e)
         | Inr (None, s') \<Rightarrow> loop rng weights mus sigmas low high q n samples s'
         | Inr (Some draw, s') \<Rightarrow> loop rng weights mus sigmas low high q n (samples @ [draw]) s')
      else Some (Inr (samples, s))) = Some r"
  show "?P rng weights mus sigmas low high q n samples s r"
  proof (intro impI)
    assume len: "length samples < n"
      and rej: "\<forall>s0. \<exists>s1. LGMM1_attempt rng weights mus sigmas low high q s0 = Inr (None, s1)"
    from rej obtain s1 where "LGMM1_attempt rng weights mus sigmas low high q s = Inr (None, s1)"
      by blast
    then have "loop rng weights mus sigmas low high q n samples s1 = Some r"
      using eq len by simp
    from IH[OF this] len rej show False by blast
  qed
qed

lemma LGMM1_loop_diverges:
  assumes "length samples < n"
    and "\<forall>s0. \<exists>s1. LGMM1_attempt rng weights mus sigmas low high q s0 = Inr (None, s1)"
  shows "LGMM1_loop rng weights mus sigmas low high q n samples s = None"
proof (cases "LGMM1_loop rng weights mus sigmas low high q n samples s")
  case None
  then show ?thesis .
next
  case (Some r)
  from LGMM1_loop_diverges_aux[OF Some] assms show ?thesis by blast
qed

lemma LGMM1_loop_returns:
  assumes "\<forall>s0. \<exists>d s1. LGMM1_attempt rng weights mus sigmas low high q s0 = Inr (Some d, s1)"
  shows "\<exists>out s'. LGMM1_loop rng weights mus sigmas low high q n samples s = Some (Inr (out, s'))"
proof (induction "n - length samples" arbitrary: samples s)
  case 0
  then show ?case by (subst LGMM1_loop.simps) simp
next
  case (Suc k)
  from assms obtain d s1 where a: "LGMM1_attempt rng weights mus sigmas low high q s = Inr (Some d, s1)"
    by blast
  have "k = n - length (samples @ [d])" using Suc(2) by simp
  from Suc(1)[OF this, of s1] obtain out s' where
    "LGMM1_loop rng weights mus sigmas low high q n (samples @ [d]) s1 = Some (Inr (out, s'))"
    by blast
  moreover have "length samples < n" using Suc(2) by simp
  ultimately show ?case using a by (subst LGMM1_loop.simps) simp
qed

lemma LGMM1_loop_within_sound:
  "LGMM1_loop_within k rng weights mus sigmas low high q n samples s = Some r \<Longrightarrow>
   LGMM1_loop rng weights mus sigmas low high q n samples s = Some r"
proof (induction k arbitrary: samples s)
  case 0
  then have "\<not> length samples < n" "r = Inr (samples, s)" by (simp_all split: if_splits)
  then show ?case by (subst LGMM1_loop.simps) simp
next
  case (Suc k)
  show ?case
  proof (cases "length samples < n")
    case False
    then show ?thesis using Suc.prems by (subst LGMM1_loop.simps) simp
  next
    case len: True
    show ?thesis
    proof (cases "LGMM1_attempt rng weights mus sigmas low high q s")
      case (Inl e)
      then show ?thesis using len Suc.prems by (subst LGMM1_loop.simps) simp
    next
      case (Inr p)
      obtain d s' where p: "p = (d, s')" by (cases p)
      show ?thesis
      proof (cases d)
        case None
        then have "LGMM1_loop_within k rng weights mus sigmas low high q n samples s' = Some r"
          using Suc.prems len Inr p by simp
        from Suc.IH[OF this] show ?thesis using len Inr p None by (subst LGMM1_loop.simps) simp
      next
        case (Some x)
        then have "LGMM1_loop_within k rng weights mus sigmas low high q n (samples @ [x]) s' = Some r"
          using Suc.prems len Inr p by simp
        from Suc.IH[OF this] show ?thesis using len Inr p Some by (subst LGMM1_loop.simps) simp
      qed
    qed
  qed
qed

lemma LGMM1_loop_within_complete:
  assumes run: "LGMM1_loop rng weights mus sigmas low high q n samples s = Some r"
  shows "\<exists>k. LGMM1_loop_within k rng weights mus sigmas low high q n samples s = Some r"
    (is "?P rng weights mus sigmas low high q n samples s r")
proof (rule LGMM1_loop.raw_induct[where P = ?P, OF _ run])
  fix loop rng weights mus sigmas low high q n samples s r
  assume IH: "\<And>rng weights mus sigmas low high q n samples s r.
      loop rng weights mus sigmas low high q n samples s = Some r \<Longrightarrow>
      ?P rng weights mus sigmas low high q n samples s r"
    and eq: "(if length samples < n then
        (case LGMM1_attempt rng weights mus sigmas low high q s of
           Inl e \<Rightarrow> Some (Inl e)
         | Inr (None, s') \<Rightarrow> loop rng weights mus sigmas low high q n samples s'
         | Inr (Some draw, s') \<Rightarrow> loop rng weights mus sigmas low high q n (samples @ [draw]) s')
      else Some (Inr (samples, s))) = Some r"
  show "?P rng weights mus sigmas low high q n samples s r"
  proof (cases "length samples < n")
    case False
    then have "LGMM1_loop_within 0 rng weights mus sigmas low high q n samples s = Some r"
      using eq by simp
    then show ?thesis ..
  next
    case True
    show ?thesis
    proof (cases "LGMM1_attempt rng weights mus sigmas low high q s")
      case (Inl e)
      then have "LGMM1_loop_within (Suc 0) rng weights mus sigmas low high q n samples s = Some r"
        using eq True by simp
      then show ?thesis ..
    next
      case (Inr p)
      obtain d s' where p: "p = (d, s')" by (cases p)
      show ?thesis
      proof (cases d)
        case None
        then have "loop rng weights mus sigmas low high q n samples s' = Some r"
          using eq True Inr p by simp
        from IH[OF this] obtain k where
          "LGMM1_loop_within k rng weights mus sigmas low high q n samples s' = Some r" ..
        then have "LGMM1_loop_within (Suc k) rng weights mus sigmas low high q n samples s = Some r"
          using True Inr p None by simp
        then show ?thesis ..
      next
        case (Some x)
        then have "loop rng weights mus sigmas low high q n (samples @ [x]) s' = Some r"
          using eq True Inr p by simp
        from IH[OF this] obtain k where
          "LGMM1_loop_within k rng weights mus sigmas low high q n (samples @ [x]) s' = Some r" ..
        then have "LGMM1_loop_within (Suc k) rng weights mus sigmas low high q n samples s = Some r"
          using True Inr p Some by simp
        then show ?thesis ..
      qed
    qed
  qed
qed

lemma LGMM1_loop_iff_within:
  "LGMM1_loop rng weights mus sigmas low high q n samples s = Some r \<longleftrightarrow>
   (\<exists>k. LGMM1_loop_within k rng weights mus sigmas low high q n samples s = Some r)"
proof
  assume "LGMM1_loop rng weights mus sigmas low high q n samples s = Some r"
  then show "\<exists>k. LGMM1_loop_within k rng weights mus sigmas low high q n samples s = Some r"
    by (rule LGMM1_loop_within_complete)
next
  assume "\<exists>k. LGMM1_loop_within k rng weights mus sigmas low high q n samples s = Some r"
  then obtain k where "LGMM1_loop_within k rng weights mus sigmas low high q n samples s = Some r" ..
  then show "LGMM1_loop rng weights mus sigmas low high q n samples s = Some r"
    by (rule LGMM1_loop_within_sound)
qed


lemma GMM1_truncated_loop:
  assumes "low < high" "length weights = length mus" "length mus = length sigmas"
  shows "GMM1_truncated rng weights mus sigmas (Some low) (Some high) q n s =
         GMM1_loop rng weights mus sigmas low high q n [] s"
  using assms by (simp add: GMM1_truncated_def py_float_def)

lemma LGMM1_truncated_loop:
  assumes "low < high"
  shows "LGMM1_truncated rng weights mus sigmas (Some low) (Some high) q n s =
         LGMM1_loop rng weights mus sigmas (exp low) (exp high) q n [] s"
  using assms by (simp add: LGMM1_truncated_def py_float_def)

text \<open>
  The generator whose first \<open>B\<close> variates are \<open>3\<close>, on one component of mean \<open>1 / 2\<close> and
  width \<open>1\<close> truncated to \<open>[0, 1)\<close>: the first \<open>B\<close> draws are \<open>7 / 2\<close> and are rejected, the
  next is \<open>1 / 2\<close> and is accepted.
\<close>

lemma GMM1_attempt_late:
  "GMM1_attempt (rng_variates (late_variates B)) [1] [1 / 2] [1] 0 1 None i =
     (if i < B then Inr (None, Suc i) else Inr (Some (1 / 2), Suc i))"
  by (simp add: GMM1_attempt_def rng_variates_def late_variates_def)

lemma GMM1_loop_within_late:
  "i + k \<le> B \<Longrightarrow>
   GMM1_loop_within k (rng_variates (late_variates B)) [1] [1 / 2] [1] 0 1 None 1 [] i = None"
  by (induction k arbitrary: i) (simp_all add: GMM1_attempt_late)

lemma GMM1_loop_late:
  "i \<le> B \<Longrightarrow>
   GMM1_loop (rng_variates (late_variates B)) [1] [1 / 2] [1] 0 1 None 1 [] i =
     Some (Inr ([1 / 2], Suc B))"
proof (induction "B - i" arbitrary: i)
  case 0
  then have "i = B" by simp
  then show ?case
    by (subst GMM1_loop.simps, simp add: GMM1_attempt_late, subst GMM1_loop.simps, simp)
next
  case (Suc d)
  then have "i < B" "d = B - Suc i" "Suc i \<le> B" by simp_all
  from Suc(1)[OF this(2,3)] this(1) show ?case
    by (subst GMM1_loop.simps) (simp add: GMM1_attempt_late)
qed

lemma LGMM1_attempt_late:
  "LGMM1_attempt (rng_variates (late_variates B)) [1] [1 / 2] [1] 1 (exp 1) None i =
     (if i < B then Inr (None, Suc i) else Inr (Some (exp (1 / 2)), Suc i))"
  by (simp add: LGMM1_attempt_def rng_variates_def late_variates_def)

lemma LGMM1_loop_within_late:
  "i + k \<le> B \<Longrightarrow>
   LGMM1_loop_within k (rng_variates (late_variates B)) [1] [1 / 2] [1] 1 (exp 1) None 1 [] i = None"
  by (induction k arbitrary: i) (simp_all add: LGMM1_attempt_late)

lemma LGMM1_loop_late:
  "i \<le> B \<Longrightarrow>
   LGMM1_loop (rng_variates (late_variates B)) [1] [1 / 2] [1] 1 (exp 1) None 1 [] i =
     Some (Inr ([exp (1 / 2)], Suc B))"
proof (induction "B - i" arbitrary: i)
  case 0
  then have "i = B" by simp
  then show ?case
    by (subst LGMM1_loop.simps, simp add: LGMM1_attempt_late, subst LGMM1_loop.simps, simp)
next
  case (Suc d)
  then have "i < B" "d = B - Suc i" "Suc i \<le> B" by simp_all
  from Suc(1)[OF this(2,3)] this(1) show ?case
    by (subst LGMM1_loop.simps) (simp add: LGMM1_attempt_late)
qed

text \<open>On a mean of \<open>5\<close> and variates that are all \<open>0\<close>, every draw is \<open>5\<close> and is rejected.\<close>

lemma GMM1_attempt_never:
  "GMM1_attempt (rng_variates (\<lambda>i. 0)) [1] [5] [1] 0 1 None i = Inr (None, Suc i)"
  by (simp add: GMM1_attempt_def rng_variates_def)

lemma LGMM1_attempt_never:
  "LGMM1_attempt (rng_variates (\<lambda>i. 0)) [1] [5] [1] 1 (exp 1) None i = Inr (None, Suc i)"
  by (simp add: LGMM1_attempt_def rng_variates_def)

text \<open>
  C2, as claimed, fails: the loops have no bound on the number of attempts, and there is
  no \<open>Degenerate\<close> error.  On one component of mean \<open>5\<close> and width \<open>1\<close> truncated to
  \<open>[0, 1)\<close>, with variates that are all \<open>0\<close>, every draw is \<open>5\<close> (\<open>exp 5\<close> for \<^verbatim>\<open>LGMM1\<close>) and
  is rejected: neither function returns, and none raises.  On a mean of \<open>1 / 2\<close>, with
  variates that are \<open>3\<close> ten thousand times and \<open>0\<close> afterwards, the loops do not end
  within \<open>10 ^ 4\<close> attempts, and return the draw of attempt \<open>10001\<close>.
\<close>

theorem rejection_loop_unbounded_counterexample:
  "GMM1_truncated (rng_variates (\<lambda>i. 0)) [1] [5] [1] (Some 0) (Some 1) None 1 0 = None
   \<and> LGMM1_truncated (rng_variates (\<lambda>i. 0)) [1] [5] [1] (Some 0) (Some 1) None 1 0 = None
   \<and> GMM1_loop_within 10000 (rng_variates (late_variates 10000)) [1] [1 / 2] [1] 0 1 None 1 [] 0
       = None
   \<and> GMM1_truncated (rng_variates (late_variates 10000)) [1] [1 / 2] [1] (Some 0) (Some 1) None 1 0
       = Some (Inr ([1 / 2], 10001))
   \<and> LGMM1_loop_within 10000 (rng_variates (late_variates 10000)) [1] [1 / 2] [1] 1 (exp 1) None
       1 [] 0 = None
   \<and> LGMM1_truncated (rng_variates (late_variates 10000)) [1] [1 / 2] [1] (Some 0) (Some 1) None 1 0
       = Some (Inr ([exp (1 / 2)], 10001))"
proof (intro conjI)
  show "GMM1_truncated (rng_variates (\<lambda>i. 0)) [1] [5] [1] (Some 0) (Some 1) None 1 0 = None"
    by (simp add: GMM1_truncated_def py_float_def GMM1_loop_diverges GMM1_attempt_never)
  show "LGMM1_truncated (rng_variates (\<lambda>i. 0)) [1] [5] [1] (Some 0) (Some 1) None 1 0 = None"
    by (simp add: LGMM1_truncated_def py_float_def LGMM1_loop_diverges LGMM1_attempt_never)
  show "GMM1_loop_within 10000 (rng_variates (late_variates 10000)) [1] [1 / 2] [1] 0 1 None 1 [] 0
       = None"
    by (rule GMM1_loop_within_late) simp
  show "GMM1_truncated (rng_variates (late_variates 10000)) [1] [1 / 2] [1] (Some 0) (Some 1) None 1 0
       = Some (Inr ([1 / 2], 10001))"
    using GMM1_loop_late[of 0 10000] by (simp add: GMM1_truncated_def py_float_def)
  show "LGMM1_loop_within 10000 (rng_variates (late_variates 10000)) [1] [1 / 2] [1] 1 (exp 1) None
       1 [] 0 = None"
    by (rule LGMM1_loop_within_late) simp
  show "LGMM1_truncated (rng_variates (late_variates 10000)) [1] [1 / 2] [1] (Some 0) (Some 1) None 1 0
       = Some (Inr ([exp (1 / 2)], 10001))"
    using LGMM1_loop_late[of 0 10000] by (simp add: LGMM1_truncated_def py_float_def)
qed

text \<open>
  C2 (amended).  For \<open>low < high\<close> the rejection loops of \<^verbatim>\<open>GMM1\<close> and \<^verbatim>\<open>LGMM1\<close> have
  no bound on the number of attempts and no error of their own.  A run returns exactly
  what the loop cut off after \<open>k\<close> attempts returns, for any \<open>k\<close> at which that loop has
  ended, whatever the order of accepted and rejected draws; a run for which no such \<open>k\<close>
  exists never returns.  A run that returns samples returns \<open>n_samples\<close> of them, each
  within the bounds; a run that raises raises the exception of one of its attempts (the
  generator's, an \<open>IndexError\<close>, or in \<^verbatim>\<open>GMM1\<close> the \<open>ZeroDivisionError\<close> of \<open>q = 0\<close>); a run
  on which every draw is accepted returns; a run on which every draw is rejected never
  returns (for \<open>n_samples > 0\<close>); and \<^verbatim>\<open>GMM1\<close> with \<open>q = 0\<close> raises at its first attempt.
\<close>

theorem rejection_loop_unbounded:
  assumes "low < high" "length weights = length mus" "length mus = length sigmas"
  shows
    "(\<forall>r. GMM1_truncated rng weights mus sigmas (Some low) (Some high) q n s = Some r \<longleftrightarrow>
          (\<exists>k. GMM1_loop_within k rng weights mus sigmas low high q n [] s = Some r))
     \<and> (\<forall>r. LGMM1_truncated rng weights mus sigmas (Some low) (Some high) q n s = Some r \<longleftrightarrow>
          (\<exists>k. LGMM1_loop_within k rng weights mus sigmas (exp low) (exp high) q n [] s = Some r))
     \<and> (\<forall>out s'. GMM1_truncated rng weights mus sigmas (Some low) (Some high) q n s = Some (Inr (out, s'))
        \<longrightarrow> length out = n \<and> (\<forall>x\<in>set out. low \<le> x \<and> x < high))
     \<and> (\<forall>out s'. LGMM1_truncated rng weights mus sigmas (Some low) (Some high) q n s = Some (Inr (out, s'))
        \<longrightarrow> length out = n \<and> (\<forall>x\<in>set out. exp low \<le> x \<and> x < exp high))
     \<and> (\<forall>e. GMM1_truncated rng weights mus sigmas (Some low) (Some high) q n s = Some (Inl e)
        \<longrightarrow> (\<exists>s0. GMM1_attempt rng weights mus sigmas low high q s0 = Inl e))
     \<and> (\<forall>e. LGMM1_truncated rng weights mus sigmas (Some low) (Some high) q n s = Some (Inl e)
        \<longrightarrow> (\<exists>s0. LGMM1_attempt rng weights mus sigmas (exp low) (exp high) q s0 = Inl e))
     \<and> ((\<forall>s0. \<exists>d s1. GMM1_attempt rng weights mus sigmas low high q s0 = Inr (Some d, s1))
        \<longrightarrow> (\<exists>out s'. GMM1_truncated rng weights mus sigmas (Some low) (Some high) q n s = Some (Inr (out, s'))))
     \<and> ((\<forall>s0. \<exists>d s1. LGMM1_attempt rng weights mus sigmas (exp low) (exp high) q s0 = Inr (Some d, s1))
        \<longrightarrow> (\<exists>out s'. LGMM1_truncated rng weights mus sigmas (Some low) (Some high) q n s = Some (Inr (out, s'))))
     \<and> (0 < n \<and> (\<forall>s0. \<exists>s1. GMM1_attempt rng weights mus sigmas low high q s0 = Inr (None, s1))
        \<longrightarrow> GMM1_truncated rng weights mus sigmas (Some low) (Some high) q n s = None)
     \<and> (0 < n \<and> (\<forall>s0. \<exists>s1. LGMM1_attempt rng weights mus sigmas (exp low) (exp high) q s0 = Inr (None, s1))
        \<longrightarrow> LGMM1_truncated rng weights mus sigmas (Some low) (Some high) q n s = None)
     \<and> (0 < n
        \<longrightarrow> (\<exists>e. GMM1_truncated rng weights mus sigmas (Some low) (Some high) (Some 0) n s = Some (Inl e)))"
proof -
  note G = GMM1_truncated_loop[OF assms] and L = LGMM1_truncated_loop[OF assms(1)]
  have c1: "\<forall>r. GMM1_truncated rng weights mus sigmas (Some low) (Some high) q n s = Some r \<longleftrightarrow>
          (\<exists>k. GMM1_loop_within k rng weights mus sigmas low high q n [] s = Some r)"
    unfolding G by (intro allI GMM1_loop_iff_within)
  have c2: "\<forall>r. LGMM1_truncated rng weights mus sigmas (Some low) (Some high) q n s = Some r \<longleftrightarrow>
          (\<exists>k. LGMM1_loop_within k rng weights mus sigmas (exp low) (exp high) q n [] s = Some r)"
    unfolding L by (intro allI LGMM1_loop_iff_within)
  have c3: "\<forall>out s'. GMM1_truncated rng weights mus sigmas (Some low) (Some high) q n s = Some (Inr (out, s'))
        \<longrightarrow> length out = n \<and> (\<forall>x\<in>set out. low \<le> x \<and> x < high)"
    unfolding G
  proof (intro allI impI)
    fix out s'
    assume "GMM1_loop rng weights mus sigmas low high q n [] s = Some (Inr (out, s'))"
    from GMM1_loop_result_aux[OF this] show "length out = n \<and> (\<forall>x\<in>set out. low \<le> x \<and> x < high)"
      by simp
  qed
  have c4: "\<forall>out s'. LGMM1_truncated rng weights mus sigmas (Some low) (Some high) q n s = Some (Inr (out, s'))
        \<longrightarrow> length out = n \<and> (\<forall>x\<in>set out. exp low \<le> x \<and> x < exp high)"
    unfolding L
  proof (intro allI impI)
    fix out s'
    assume "LGMM1_loop rng weights mus sigmas (exp low) (exp high) q n [] s = Some (Inr (out, s'))"
    from LGMM1_loop_result_aux[OF this]
    show "length out = n \<and> (\<forall>x\<in>set out. exp low \<le> x \<and> x < exp high)"
      by simp
  qed
  have c5: "\<forall>e. GMM1_truncated rng weights mus sigmas (Some low) (Some high) q n s = Some (Inl e)
        \<longrightarrow> (\<exists>s0. GMM1_attempt rng weights mus sigmas low high q s0 = Inl e)"
    unfolding G
  proof (intro allI impI)
    fix e
    assume "GMM1_loop rng weights mus sigmas low high q n [] s = Some (Inl e)"
    from GMM1_loop_result_aux[OF this]
    show "\<exists>s0. GMM1_attempt rng weights mus sigmas low high q s0 = Inl e" by simp
  qed
  have c6: "\<forall>e. LGMM1_truncated rng weights mus sigmas (Some low) (Some high) q n s = Some (Inl e)
        \<longrightarrow> (\<exists>s0. LGMM1_attempt rng weights mus sigmas (exp low) (exp high) q s0 = Inl e)"
    unfolding L
  proof (intro allI impI)
    fix e
    assume "LGMM1_loop rng weights mus sigmas (exp low) (exp high) q n [] s = Some (Inl e)"
    from LGMM1_loop_result_aux[OF this]
    show "\<exists>s0. LGMM1_attempt rng weights mus sigmas (exp low) (exp high) q s0 = Inl e" by simp
  qed
  have c7: "(\<forall>s0. \<exists>d s1. GMM1_attempt rng weights mus sigmas low high q s0 = Inr (Some d, s1))
        \<longrightarrow> (\<exists>out s'. GMM1_truncated rng weights mus sigmas (Some low) (Some high) q n s = Some (Inr (out, s')))"
    unfolding G by (intro impI GMM1_loop_returns)
  have c8: "(\<forall>s0. \<exists>d s1. LGMM1_attempt rng weights mus sigmas (exp low) (exp high) q s0 = Inr (Some d, s1))
        \<longrightarrow> (\<exists>out s'. LGMM1_truncated rng weights mus sigmas (Some low) (Some high) q n s = Some (Inr (out, s')))"
    unfolding L by (intro impI LGMM1_loop_returns)
  have c9: "0 < n \<and> (\<forall>s0. \<exists>s1. GMM1_attempt rng weights mus sigmas low high q s0 = Inr (None, s1))
        \<longrightarrow> GMM1_truncated rng weights mus sigmas (Some low) (Some high) q n s = None"
    unfolding G
  proof
    assume "0 < n \<and> (\<forall>s0. \<exists>s1. GMM1_attempt rng weights mus sigmas low high q s0 = Inr (None, s1))"
    then show "GMM1_loop rng weights mus sigmas low high q n [] s = None"
      by (intro GMM1_loop_diverges) simp_all
  qed
  have c10: "0 < n \<and> (\<forall>s0. \<exists>s1. LGMM1_attempt rng weights mus sigmas (exp low) (exp high) q s0 = Inr (None, s1))
        \<longrightarrow> LGMM1_truncated rng weights mus sigmas (Some low) (Some high) q n s = None"
    unfolding L
  proof
    assume "0 < n \<and> (\<forall>s0. \<exists>s1. LGMM1_attempt rng weights mus sigmas (exp low) (exp high) q s0 = Inr (None, s1))"
    then show "LGMM1_loop rng weights mus sigmas (exp low) (exp high) q n [] s = None"
      by (intro LGMM1_loop_diverges) simp_all
  qed
  have c11: "0 < n
        \<longrightarrow> (\<exists>e. GMM1_truncated rng weights mus sigmas (Some low) (Some high) (Some 0) n s = Some (Inl e))"
    unfolding G by (intro impI GMM1_loop_zero_q)
  show ?thesis by (intro conjI c1 c2 c3 c4 c5 c6 c7 c8 c9 c10 c11)
qed

theorem rejection_loop_unbounded_witness:
  "(0::real) < 1 \<and> length [1::real] = length [1 / 2 :: real]
   \<and> length [1 / 2 :: real] = length [1::real]
   \<and> GMM1_loop_within 4 (rng_variates (late_variates 2)) [1] [1 / 2] [1] 0 1 None 3 [] 0 = None
   \<and> GMM1_truncated (rng_variates (late_variates 2)) [1] [1 / 2] [1] (Some 0) (Some 1) None 3 0
       = Some (Inr ([1 / 2, 1 / 2, 1 / 2], 5))
   \<and> LGMM1_truncated (rng_variates (late_variates 2)) [1] [1 / 2] [1] (Some 0) (Some 1) None 3 0
       = Some (Inr ([exp (1 / 2), exp (1 / 2), exp (1 / 2)], 5))
   \<and> GMM1_truncated (rng_variates (\<lambda>i. 0)) [1] [5] [1] (Some 0) (Some 1) None 3 0 = None
   \<and> LGMM1_truncated (rng_variates (\<lambda>i. 0)) [1] [5] [1] (Some 0) (Some 1) None 3 0 = None
   \<and> GMM1_truncated (rng_variates (\<lambda>i. 0)) [1] [5] [1] (Some 0) (Some 1) (Some 0) 3 0
       = Some (Inl ZeroDivisionError)"
proof -
  have h1: "(0::real) < 1" and h2: "length [1::real] = length [1 / 2 :: real]"
    and h3: "length [1 / 2 :: real] = length [1::real]"
    and h4: "length [1::real] = length [5::real]"
    and h5: "length [5::real] = length [1::real]" by simp_all
  have n: "(0::nat) < 3" by simp
  have w4: "GMM1_loop_within 4 (rng_variates (late_variates 2)) [1] [1 / 2] [1] 0 1 None 3 [] 0 = None"
    by (simp add: eval_nat_numeral GMM1_attempt_late)
  have w5: "GMM1_loop_within 5 (rng_variates (late_variates 2)) [1] [1 / 2] [1] 0 1 None 3 [] 0
      = Some (Inr ([1 / 2, 1 / 2, 1 / 2], 5))"
    by (simp add: eval_nat_numeral GMM1_attempt_late)
  have l5: "LGMM1_loop_within 5 (rng_variates (late_variates 2)) [1] [1 / 2] [1] (exp 0) (exp 1) None
      3 [] 0 = Some (Inr ([exp (1 / 2), exp (1 / 2), exp (1 / 2)], 5))"
    by (simp add: eval_nat_numeral LGMM1_attempt_late)
  note mixed = rejection_loop_unbounded[where rng = "rng_variates (late_variates 2)" and q = None
      and n = 3 and s = 0, OF h1 h2 h3]
  have m1: "GMM1_truncated (rng_variates (late_variates 2)) [1] [1 / 2] [1] (Some 0) (Some 1) None 3 0
       = Some (Inr ([1 / 2, 1 / 2, 1 / 2], 5))"
    using mixed w5 by blast
  have m2: "LGMM1_truncated (rng_variates (late_variates 2)) [1] [1 / 2] [1] (Some 0) (Some 1) None 3 0
       = Some (Inr ([exp (1 / 2), exp (1 / 2), exp (1 / 2)], 5))"
    using mixed l5 by blast
  have g: "\<forall>s0. \<exists>s1. GMM1_attempt (rng_variates (\<lambda>i. 0)) [1] [5] [1] 0 1 None s0 = Inr (None, s1)"
    by (simp add: GMM1_attempt_never)
  have l: "\<forall>s0. \<exists>s1. LGMM1_attempt (rng_variates (\<lambda>i. 0)) [1] [5] [1] (exp 0) (exp 1) None s0
      = Inr (None, s1)"
    by (simp add: LGMM1_attempt_never)
  from rejection_loop_unbounded[where rng = "rng_variates (\<lambda>i. 0)" and q = None and n = 3
      and s = 0, OF h1 h4 h5] n g l
  have never: "GMM1_truncated (rng_variates (\<lambda>i. 0)) [1] [5] [1] (Some 0) (Some 1) None 3 0 = None"
    "LGMM1_truncated (rng_variates (\<lambda>i. 0)) [1] [5] [1] (Some 0) (Some 1) None 3 0 = None"
    by blast+
  have a0: "GMM1_attempt (rng_variates (\<lambda>i. 0)) [1] [5] [1] 0 1 (Some 0) s0 = Inl ZeroDivisionError"
    for s0
    by (simp add: GMM1_attempt_def rng_variates_def)
  from rejection_loop_unbounded[where rng = "rng_variates (\<lambda>i. 0)" and q = "Some 0" and n = 3
      and s = 0, OF h1 h4 h5] n
  obtain e where e: "GMM1_truncated (rng_variates (\<lambda>i. 0)) [1] [5] [1] (Some 0) (Some 1) (Some 0) 3 0
      = Some (Inl e)"
    and "\<exists>s0. GMM1_attempt (rng_variates (\<lambda>i. 0)) [1] [5] [1] 0 1 (Some 0) s0 = Inl e"
    by blast
  then have "e = ZeroDivisionError" unfolding a0 by blast
  with e have z: "GMM1_truncated (rng_variates (\<lambda>i. 0)) [1] [5] [1] (Some 0) (Some 1) (Some 0) 3 0
      = Some (Inl ZeroDivisionError)" by simp
  show ?thesis by (intro conjI h1 h2 h3 w4 m1 m2 never z)
qed

subsection \<open>The density of the truncated log-normal mixture\<close>

lemma erf_0: "erf 0 = 0"
  by (simp add: erf_def erf_term_def)

lemma eps_small: "EPS \<le> 1 / 2" by (simp add: EPS_def)

lemma inv_sqrt2: "1 / 2 \<le> 1 / sqrt 2"
proof -
  have "sqrt 2 \<le> 2" by (rule real_le_lsqrt) simp_all
  then show ?thesis by (simp add: field_simps)
qed

lemma erf_term_nonneg: "0 \<le> x \<Longrightarrow> 0 \<le> erf_term x n"
  by (simp add: erf_term_def)

lemma erf_term_decreasing:
  assumes "0 \<le> x" "x \<le> 1"
  shows "erf_term x (Suc n) \<le> erf_term x n"
proof -
  have "x ^ 2 \<le> 1" using assms by (simp add: power_le_one)
  then have "x ^ (2 * n + 1) * x ^ 2 \<le> x ^ (2 * n + 1) * 1"
    using assms by (intro mult_left_mono) simp_all
  then have num: "x ^ (2 * Suc n + 1) \<le> x ^ (2 * n + 1)"
    by (simp add: power_add algebra_simps power2_eq_square)
  have "fact n * real (2 * n + 1) \<le> fact n * real (2 * Suc n + 1)"
    by (intro mult_left_mono) simp_all
  also have "\<dots> \<le> fact (Suc n) * real (2 * Suc n + 1)"
    by (intro mult_right_mono) (simp_all add: fact_mono)
  finally have den: "fact n * real (2 * n + 1) \<le> fact (Suc n) * real (2 * Suc n + 1)" .
  have "0 < fact n * real (2 * n + 1)" by simp
  from frac_le[OF _ num this den] assms show ?thesis
    by (simp add: erf_term_def)
qed

lemma erf_term_tendsto:
  assumes "0 \<le> x" "x \<le> 1"
  shows "erf_term x \<longlonglongrightarrow> 0"
proof (rule real_tendsto_sandwich)
  show "\<forall>\<^sub>F n in sequentially. 0 \<le> erf_term x n"
    using assms by (simp add: erf_term_nonneg)
  show "\<forall>\<^sub>F n in sequentially. erf_term x n \<le> inverse (real (Suc n))"
  proof (rule always_eventually, rule allI)
    fix n
    have "x ^ (2 * n + 1) \<le> 1" using assms by (simp add: power_le_one del: power_Suc)
    moreover have "real (Suc n) \<le> fact n * real (2 * n + 1)"
    proof -
      have "real (Suc n) \<le> 1 * real (2 * n + 1)" by simp
      also have "\<dots> \<le> fact n * real (2 * n + 1)"
        by (intro mult_right_mono) simp_all
      finally show ?thesis .
    qed
    ultimately have "x ^ (2 * n + 1) / (fact n * real (2 * n + 1)) \<le> 1 / real (Suc n)"
      by (intro frac_le) simp_all
    then show "erf_term x n \<le> inverse (real (Suc n))"
      by (simp add: erf_term_def inverse_eq_divide)
  qed
  show "(\<lambda>n. 0::real) \<longlonglongrightarrow> 0" by simp
  show "(\<lambda>n. inverse (real (Suc n))) \<longlonglongrightarrow> 0" by (rule LIMSEQ_inverse_real_of_nat)
qed

lemma erf_series_bounds:
  assumes "0 \<le> x" "x \<le> 1"
  shows "x - x ^ 3 / 3 \<le> (\<Sum>n. (- 1) ^ n * erf_term x n)"
    and "(\<Sum>n. (- 1) ^ n * erf_term x n) \<le> x"
proof -
  note L = summable_Leibniz'[OF erf_term_tendsto[OF assms] erf_term_nonneg[OF assms(1)]
      erf_term_decreasing[OF assms]]
  have "(\<Sum>i<2 * 1. (- 1) ^ i * erf_term x i) = x - x ^ 3 / 3"
    by (simp add: erf_term_def numeral_2_eq_2 lessThan_Suc power3_eq_cube)
  with L(2)[of 1] show "x - x ^ 3 / 3 \<le> (\<Sum>n. (- 1) ^ n * erf_term x n)" by simp
  have "(\<Sum>i<2 * 0 + 1. (- 1) ^ i * erf_term x i) = x"
    by (simp add: erf_term_def)
  with L(4)[of 0] show "(\<Sum>n. (- 1) ^ n * erf_term x n) \<le> x" by simp
qed

lemma erf_half_bounds: "0 < erf (1 / 2)" "erf (1 / 2) < 1"
proof -
  let ?S = "\<Sum>n. (- 1) ^ n * erf_term (1 / 2) n"
  have e: "erf (1 / 2) = 2 / sqrt pi * ?S" by (simp add: erf_def erf_term_def)
  have lo: "(1 / 2) - (1 / 2) ^ 3 / 3 \<le> ?S" and hi: "?S \<le> 1 / 2"
    using erf_series_bounds[of "1 / 2"] by simp_all
  have "0 < ?S" using lo by (simp add: power3_eq_cube)
  then show "0 < erf (1 / 2)" unfolding e by simp
  have "1 < sqrt pi" using pi_ge_two by (intro real_less_rsqrt) simp
  have "2 / sqrt pi * ?S \<le> 2 / sqrt pi * (1 / 2)"
    using hi by (intro mult_left_mono) simp_all
  also have "\<dots> = 1 / sqrt pi" by simp
  also have "\<dots> < 1" using \<open>1 < sqrt pi\<close> by simp
  finally show "erf (1 / 2) < 1" unfolding e .
qed

text \<open>In the branch \<^verbatim>\<open>q is None\<close> the bounds do not enter the result.\<close>

lemma LGMM1_lpdf_continuous_ignores_bounds:
  "LGMM1_lpdf samples weights mus sigmas (Some low) (Some high) None =
   LGMM1_lpdf samples weights mus sigmas None None None"
  by (simp add: LGMM1_lpdf_def truncation_p_accept_def)

text \<open>In the other branch the logarithm of the acceptance mass is subtracted.\<close>

lemma LGMM1_lpdf_discrete_normalised:
  assumes "LGMM1_lpdf samples weights mus sigmas None None (Some q) = Inr u"
    and "truncation_p_accept weights mus sigmas (Some low) (Some high) = Inr p"
  shows "LGMM1_lpdf samples weights mus sigmas (Some low) (Some high) (Some q) =
         Inr (map (\<lambda>v. v - ln p) u)"
  using assms
  by (auto simp: LGMM1_lpdf_def truncation_p_accept_def comp_def split: if_splits)

lemma truncation_p_accept_example:
  "truncation_p_accept [1] [0] [1 / sqrt 2] (Some 0) (Some (1 / 2)) = Inr (erf (1 / 2) / 2)"
proof -
  have "EPS \<le> 1" by (simp add: EPS_def)
  then have "normal_cdf x 0 (1 / sqrt 2) = 0.5 * (1 + erf x)" for x
    by (simp add: normal_cdf_def max_absorb1)
  then show ?thesis by (simp add: truncation_p_accept_def erf_0)
qed

lemma lognormal_lpdf_example: "lognormal_lpdf 1 0 (1 / sqrt 2) = - ln (sqrt pi)"
proof -
  have "EPS \<le> 1 / sqrt 2" using eps_small inv_sqrt2 by (rule order_trans)
  then have m: "max (1 / sqrt 2) EPS = 1 / sqrt 2" by (simp only: max_absorb1)
  have "sqrt (2 * pi) = sqrt 2 * sqrt pi" by (rule real_sqrt_mult)
  then show ?thesis by (simp add: lognormal_lpdf_def m)
qed

lemma ln_acceptance_example: "ln (erf (1 / 2) / 2) \<noteq> 0"
proof -
  have "0 < erf (1 / 2) / 2" "erf (1 / 2) / 2 < 1" using erf_half_bounds by simp_all
  then have "ln (erf (1 / 2) / 2) < 0" by (simp only: ln_less_zero_iff)
  then show ?thesis by simp
qed

text \<open>
  C8 (the code departs from the claim).  One component of weight \<open>1\<close>, \<open>mu = 0\<close> and
  \<open>sigma = 1 / sqrt 2\<close>, the sample \<open>1\<close>, the bounds \<open>(0, 1/2)\<close> and no \<open>q\<close>: the
  log-density returned is that of the untruncated mixture, \<open>- ln (sqrt pi)\<close>.  The
  acceptance mass is \<open>erf (1/2) / 2\<close>, whose logarithm is not \<open>0\<close>, so the value is not
  the untruncated log-density minus \<open>log p_accept\<close>.
\<close>

theorem LGMM1_lpdf_continuous_not_normalised:
  "LGMM1_lpdf [1] [1] [0] [1 / sqrt 2] (Some 0) (Some (1 / 2)) None = Inr [- ln (sqrt pi)]
   \<and> LGMM1_lpdf [1] [1] [0] [1 / sqrt 2] None None None = Inr [- ln (sqrt pi)]
   \<and> truncation_p_accept [1] [0] [1 / sqrt 2] (Some 0) (Some (1 / 2)) = Inr (erf (1 / 2) / 2)
   \<and> - ln (sqrt pi) \<noteq> - ln (sqrt pi) - ln (erf (1 / 2) / 2)"
proof -
  have u: "LGMM1_lpdf [1] [1] [0] [1 / sqrt 2] None None None = Inr [- ln (sqrt pi)]"
    by (simp add: LGMM1_lpdf_def truncation_p_accept_def logsum_rows_def logsum_row_def
        lognormal_lpdf_example)
  have t: "LGMM1_lpdf [1] [1] [0] [1 / sqrt 2] (Some 0) (Some (1 / 2)) None = Inr [- ln (sqrt pi)]"
    by (simp only: LGMM1_lpdf_continuous_ignores_bounds u)
  show ?thesis
    using u t truncation_p_accept_example ln_acceptance_example by simp
qed

subsection \<open>The derivative-free refinement\<close>

lemma refine_setup_memo:
  assumes "refine_setup T memo BIG MEDIUM = Inr (b, found, memo')"
  shows "memo' = snd (rec_eval_sample T memo)"
  using assms
  by (auto simp: refine_setup_def Let_def split: if_splits prod.splits sum.splits)

lemma refine_setup_lengths:
  assumes "refine_setup T memo BIG MEDIUM = Inr (b, found, memo')"
  shows "length found = length (nids_to_optimize b)" "length (qlevels b) = length (nids_to_optimize b)"
  using assms
  by (auto simp: refine_setup_def Let_def split: if_splits prod.splits sum.splits)

lemma refine_setup_candidate_in_bounds:
  assumes "refine_setup T memo BIG MEDIUM = Inr (b, found, memo')"
  shows "\<not> any_below (all_vals b) (lbounds b) \<and> \<not> any_above (all_vals b) (ubounds b)"
  using assms
  by (auto simp: refine_setup_def Let_def split: if_splits prod.splits sum.splits)

lemma fold_write_other:
  "k \<notin> f ` fst ` set ps \<Longrightarrow> fold (\<lambda>(nid, v) m. m(f nid \<mapsto> [v])) ps memo k = memo k"
  by (induction ps arbitrary: memo) (auto split: prod.splits)

lemma fold_write_nth:
  "distinct (map (f \<circ> fst) ps) \<Longrightarrow> i < length ps \<Longrightarrow>
   fold (\<lambda>(nid, v) m. m(f nid \<mapsto> [v])) ps memo (f (fst (ps ! i))) = Some [snd (ps ! i)]"
proof (induction ps arbitrary: memo i)
  case Nil
  then show ?case by simp
next
  case (Cons p ps)
  obtain nid v where p: "p = (nid, v)" by (cases p)
  show ?case
  proof (cases i)
    case 0
    have "f nid \<notin> f ` fst ` set ps" using Cons.prems(1) p by (auto simp: image_iff)
    then have "fold (\<lambda>(nid, v) m. m(f nid \<mapsto> [v])) ps (memo(f nid \<mapsto> [v])) (f nid)
        = (memo(f nid \<mapsto> [v])) (f nid)"
      by (rule fold_write_other)
    then have "fold (\<lambda>(nid, v) m. m(f nid \<mapsto> [v])) ps (memo(f nid \<mapsto> [v])) (f nid) = Some [v]"
      by (simp only: fun_upd_same)
    then show ?thesis
      by (simp only: 0 p fold_simps nth_Cons_0 fst_conv snd_conv case_prod_conv comp_apply)
  next
    case (Suc j)
    then show ?thesis using Cons.prems Cons.IH[of j] p by simp
  qed
qed

lemma write_vals_other:
  "k \<notin> post_below_vals T ` set nids \<Longrightarrow> write_vals T memo nids vals k = memo k"
  unfolding write_vals_def
  by (rule fold_write_other) (auto dest: set_zip_leftD)

lemma write_vals_nth:
  assumes "distinct (map (post_below_vals T) nids)" "length vals = length nids" "i < length nids"
  shows "write_vals T memo nids vals (post_below_vals T (nids ! i)) = Some [vals ! i]"
proof -
  let ?ps = "zip nids vals"
  have "map (post_below_vals T \<circ> fst) ?ps = map (post_below_vals T) (map fst ?ps)"
    by simp
  also have "map fst ?ps = nids" using assms(2) by simp
  finally have "map (post_below_vals T \<circ> fst) ?ps = map (post_below_vals T) nids" .
  then have "distinct (map (post_below_vals T \<circ> fst) ?ps)" using assms(1) by simp
  moreover have "i < length ?ps" using assms by simp
  ultimately have "fold (\<lambda>(nid, v) m. m(post_below_vals T nid \<mapsto> [v])) ?ps memo
      (post_below_vals T (fst (?ps ! i))) = Some [snd (?ps ! i)]"
    by (rule fold_write_nth)
  then show ?thesis using assms by (simp add: write_vals_def)
qed

lemma bounds_step_wf:
  assumes "bounds_step T MEDIUM nv b = Inr b'" "bounds_wf b"
  shows "bounds_wf b'"
proof -
  obtain nid vals where nv: "nv = (nid, vals)" by (cases nv)
  have "bounds_wf (bounds_append b nid vals lb ub q)" if "length vals = 1" for lb ub q
    using assms(2) that by (simp add: bounds_wf_def bounds_append_def)
  then show ?thesis
    using assms unfolding nv bounds_step_def
    by (auto simp: Let_def simp del: set_simps split: if_splits sum.splits)
qed

lemma collect_bounds_wf:
  "collect_bounds T MEDIUM i_vals b = Inr b' \<Longrightarrow> bounds_wf b \<Longrightarrow> bounds_wf b'"
proof (induction i_vals arbitrary: b)
  case Nil
  then show ?case by simp
next
  case (Cons nv rest)
  then show ?case
    by (cases "bounds_step T MEDIUM nv b") (auto dest: bounds_step_wf)
qed

lemma refine_no_grad_rejects_candidate:
  assumes "n_EI_candidates T \<le> 1"
    and "rec_eval_sample T memo = (i_vals, memo')"
    and "collect_bounds T MEDIUM i_vals
           \<lparr>nids_to_optimize = [], all_vals = [], lbounds = [], ubounds = [], qlevels = []\<rparr> = Inr b"
  shows "any_below (all_vals b) (lbounds b) \<Longrightarrow>
           refine_no_grad T memo BIG MEDIUM = Inl (ValueError ''sampler did not respect lbound'')"
    and "\<not> any_below (all_vals b) (lbounds b) \<Longrightarrow> any_above (all_vals b) (ubounds b) \<Longrightarrow>
           refine_no_grad T memo BIG MEDIUM = Inl (UnboundLocalError ''lbi'')"
proof -
  have "bounds_wf \<lparr>nids_to_optimize = [], all_vals = [], lbounds = [], ubounds = [], qlevels = []\<rparr>"
    by (simp add: bounds_wf_def)
  with assms(3) have wf: "bounds_wf b" by (rule collect_bounds_wf)
  show "any_below (all_vals b) (lbounds b) \<Longrightarrow>
           refine_no_grad T memo BIG MEDIUM = Inl (ValueError ''sampler did not respect lbound'')"
    using assms wf by (simp add: refine_no_grad_def refine_setup_def bounds_wf_def)
  show "\<not> any_below (all_vals b) (lbounds b) \<Longrightarrow> any_above (all_vals b) (ubounds b) \<Longrightarrow>
           refine_no_grad T memo BIG MEDIUM = Inl (UnboundLocalError ''lbi'')"
    using assms wf by (simp add: refine_no_grad_def refine_setup_def bounds_wf_def)
qed

lemma bounds_step_cases:
  assumes "bounds_step T MEDIUM (nid, vals) b = Inr b'"
  shows "b' = b \<or> (\<exists>v lb ub q. vals = [v] \<and> b' = bounds_append b nid [v] lb ub q)"
proof (cases "length vals = 1")
  case True
  then obtain v where v: "vals = [v]" by (cases vals) auto
  show ?thesis
    using assms unfolding v bounds_step_def
    by (auto simp: Let_def simp del: set_simps split: if_splits sum.splits)
next
  case False
  then show ?thesis
    using assms unfolding bounds_step_def by (auto split: if_splits)
qed

lemma bounds_step_from:
  assumes "bounds_step T MEDIUM nv b = Inr b'" "bounds_from S b" "nv \<in> S"
  shows "bounds_from S b'"
proof -
  obtain nid vals where nv: "nv = (nid, vals)" by (cases nv)
  from bounds_step_cases[OF assms(1)[unfolded nv]]
  show ?thesis
  proof
    assume "b' = b"
    then show ?thesis using assms(2) by simp
  next
    assume "\<exists>v lb ub q. vals = [v] \<and> b' = bounds_append b nid [v] lb ub q"
    then obtain v lb ub q where v: "vals = [v]" and b': "b' = bounds_append b nid [v] lb ub q"
      by blast
    have wf: "bounds_wf b" using assms(2) by (simp add: bounds_from_def)
    have len: "length (all_vals b) = length (nids_to_optimize b)"
      using wf by (simp add: bounds_wf_def)
    have "bounds_wf b'" using wf unfolding b' by (simp add: bounds_wf_def bounds_append_def)
    moreover have "(nids_to_optimize b' ! i, [all_vals b' ! i]) \<in> S"
      if "i < length (nids_to_optimize b')" for i
    proof (cases "i < length (nids_to_optimize b)")
      case True
      then show ?thesis
        using assms(2) len unfolding b' by (simp add: bounds_from_def bounds_append_def nth_append)
    next
      case False
      then have "i = length (nids_to_optimize b)"
        using that unfolding b' by (simp add: bounds_append_def)
      then show ?thesis
        using assms(3) len unfolding b' nv v by (simp add: bounds_append_def nth_append)
    qed
    ultimately show ?thesis by (simp add: bounds_from_def)
  qed
qed

lemma collect_bounds_from:
  "collect_bounds T MEDIUM i_vals b = Inr b' \<Longrightarrow> bounds_from S b \<Longrightarrow> set i_vals \<subseteq> S \<Longrightarrow>
   bounds_from S b'"
proof (induction i_vals arbitrary: b)
  case Nil
  then show ?case by simp
next
  case (Cons nv rest)
  show ?case
  proof (cases "bounds_step T MEDIUM nv b")
    case (Inl e)
    then show ?thesis using Cons.prems(1) by simp
  next
    case (Inr b1)
    then have "collect_bounds T MEDIUM rest b1 = Inr b'" using Cons.prems(1) by simp
    moreover have "bounds_from S b1"
      using Inr Cons.prems(2,3) by (intro bounds_step_from[of T MEDIUM nv b b1 S]) simp_all
    moreover have "set rest \<subseteq> S" using Cons.prems(3) by simp
    ultimately show ?thesis by (rule Cons.IH)
  qed
qed

lemma refine_setup_candidate:
  assumes "refine_setup T memo BIG MEDIUM = Inr (b, found, memo')"
  shows "\<forall>i<length (nids_to_optimize b).
           (nids_to_optimize b ! i, [all_vals b ! i]) \<in> set (fst (rec_eval_sample T memo))"
proof -
  obtain i_vals m where s: "rec_eval_sample T memo = (i_vals, m)"
    by (cases "rec_eval_sample T memo")
  have c: "collect_bounds T MEDIUM i_vals
      \<lparr>nids_to_optimize = [], all_vals = [], lbounds = [], ubounds = [], qlevels = []\<rparr> = Inr b"
    using assms s
    by (auto simp: refine_setup_def Let_def split: if_splits sum.splits)
  have "bounds_from (set i_vals)
      \<lparr>nids_to_optimize = [], all_vals = [], lbounds = [], ubounds = [], qlevels = []\<rparr>"
    by (simp add: bounds_from_def bounds_wf_def)
  with c have "bounds_from (set i_vals) b" by (rule collect_bounds_from) simp
  then show ?thesis using s by (simp add: bounds_from_def)
qed

lemma refine_setup_example_outside: "refine_setup (tpe_single ''uniform'' (1 / 2) 2) Map.empty (10 ^ 15) (10 ^ 4) =
   Inr (\<lparr>nids_to_optimize = [0], all_vals = [1 / 2], lbounds = [0], ubounds = [1], qlevels = [None]\<rparr>,
        [2], [0 \<mapsto> [Finite (1 / 2)]])"
  by (simp add: refine_setup_def tpe_single_def bounds_step_def qlevel_of_def
      bounds_append_def any_below_def any_above_def)

lemma refine_setup_example_inside: "refine_setup (tpe_single ''quniform'' 0 (3 / 4)) Map.empty (10 ^ 15) (10 ^ 4) =
   Inr (\<lparr>nids_to_optimize = [0], all_vals = [0], lbounds = [0], ubounds = [1], qlevels = [Some 1]\<rparr>,
        [3 / 4], [0 \<mapsto> [Finite 0]])"
  by (simp add: refine_setup_def tpe_single_def bounds_step_def qlevel_of_def q_of_def
      bounds_append_def any_below_def any_above_def)

text \<open>
  C9.  When the point \<open>found\<close> by the optimizer is below a lower bound or above an upper
  bound, \<^verbatim>\<open>refine_no_grad\<close> returns the memo as the draw from the below posterior left it;
  where that evaluation has recorded the drawn values at their nodes, the memo returned
  holds the drawn candidate at the node of every optimized hyperparameter.
  Otherwise it returns that memo with the rounded values of \<open>found\<close> written to the
  nodes of the optimized hyperparameters, and nothing else changed.
\<close>

theorem refine_no_grad_fallback:
  assumes "refine_setup T memo BIG MEDIUM = Inr (b, found, memo')"
  shows "memo' = snd (rec_eval_sample T memo)
     \<and> (any_below found (lbounds b) \<or> any_above found (ubounds b)
          \<longrightarrow> refine_no_grad T memo BIG MEDIUM = Inr memo')
     \<and> ((\<forall>p\<in>set (fst (rec_eval_sample T memo)).
            memo' (post_below_vals T (fst p)) = Some (map Finite (snd p)))
          \<longrightarrow> (\<forall>i<length (nids_to_optimize b).
                 memo' (post_below_vals T (nids_to_optimize b ! i)) = Some [Finite (all_vals b ! i)]))
     \<and> (\<not> any_below found (lbounds b) \<and> \<not> any_above found (ubounds b)
          \<longrightarrow> (\<exists>out. refine_no_grad T memo BIG MEDIUM = Inr out
                \<and> out = write_vals T memo' (nids_to_optimize b) (map2 snap_found found (qlevels b))
                \<and> (\<forall>k. k \<notin> post_below_vals T ` set (nids_to_optimize b) \<longrightarrow> out k = memo' k)
                \<and> (distinct (map (post_below_vals T) (nids_to_optimize b)) \<longrightarrow>
                    (\<forall>i<length (nids_to_optimize b).
                       out (post_below_vals T (nids_to_optimize b ! i))
                         = Some [snap_found (found ! i) (qlevels b ! i)]))))"
proof (intro conjI impI)
  show "memo' = snd (rec_eval_sample T memo)" using assms by (rule refine_setup_memo)
next
  assume "any_below found (lbounds b) \<or> any_above found (ubounds b)"
  then show "refine_no_grad T memo BIG MEDIUM = Inr memo'"
    using assms by (auto simp: refine_no_grad_def)
next
  assume rec: "\<forall>p\<in>set (fst (rec_eval_sample T memo)).
      memo' (post_below_vals T (fst p)) = Some (map Finite (snd p))"
  show "\<forall>i<length (nids_to_optimize b).
      memo' (post_below_vals T (nids_to_optimize b ! i)) = Some [Finite (all_vals b ! i)]"
  proof (intro allI impI)
    fix i assume "i < length (nids_to_optimize b)"
    then have "(nids_to_optimize b ! i, [all_vals b ! i]) \<in> set (fst (rec_eval_sample T memo))"
      using refine_setup_candidate[OF assms] by blast
    from rec[rule_format, OF this]
    show "memo' (post_below_vals T (nids_to_optimize b ! i)) = Some [Finite (all_vals b ! i)]"
      by simp
  qed
next
  assume ok: "\<not> any_below found (lbounds b) \<and> \<not> any_above found (ubounds b)"
  let ?vals = "map2 snap_found found (qlevels b)"
  let ?out = "write_vals T memo' (nids_to_optimize b) ?vals"
  note len = refine_setup_lengths[OF assms]
  have r: "refine_no_grad T memo BIG MEDIUM = Inr ?out"
    using assms ok by (simp add: refine_no_grad_def)
  have other: "\<forall>k. k \<notin> post_below_vals T ` set (nids_to_optimize b) \<longrightarrow> ?out k = memo' k"
    by (simp add: write_vals_other)
  have written: "distinct (map (post_below_vals T) (nids_to_optimize b)) \<longrightarrow>
      (\<forall>i<length (nids_to_optimize b).
         ?out (post_below_vals T (nids_to_optimize b ! i)) = Some [snap_found (found ! i) (qlevels b ! i)])"
  proof (intro impI allI)
    fix i assume d: "distinct (map (post_below_vals T) (nids_to_optimize b))"
      and i: "i < length (nids_to_optimize b)"
    have "?out (post_below_vals T (nids_to_optimize b ! i)) = Some [?vals ! i]"
      using d i len by (intro write_vals_nth) simp_all
    then show "?out (post_below_vals T (nids_to_optimize b ! i)) = Some [snap_found (found ! i) (qlevels b ! i)]"
      using i len by simp
  qed
  show "\<exists>out. refine_no_grad T memo BIG MEDIUM = Inr out
      \<and> out = ?out
      \<and> (\<forall>k. k \<notin> post_below_vals T ` set (nids_to_optimize b) \<longrightarrow> out k = memo' k)
      \<and> (distinct (map (post_below_vals T) (nids_to_optimize b)) \<longrightarrow>
          (\<forall>i<length (nids_to_optimize b).
             out (post_below_vals T (nids_to_optimize b ! i))
               = Some [snap_found (found ! i) (qlevels b ! i)]))"
    using r other written by blast
qed

theorem refine_no_grad_fallback_witness:
  "refine_setup (tpe_single ''uniform'' (1 / 2) 2) Map.empty (10 ^ 15) (10 ^ 4) =
     Inr (\<lparr>nids_to_optimize = [0], all_vals = [1 / 2], lbounds = [0], ubounds = [1], qlevels = [None]\<rparr>,
          [2], [0 \<mapsto> [Finite (1 / 2)]])
   \<and> any_above [2] [1]
   \<and> refine_no_grad (tpe_single ''uniform'' (1 / 2) 2) Map.empty (10 ^ 15) (10 ^ 4)
       = Inr [0 \<mapsto> [Finite (1 / 2)]]
   \<and> rec_eval_sample (tpe_single ''uniform'' (1 / 2) 2) Map.empty
       = ([(0, [1 / 2])], [0 \<mapsto> map Finite [1 / 2]])
   \<and> [0 \<mapsto> [Finite (1 / 2)]] (post_below_vals (tpe_single ''uniform'' (1 / 2) 2) 0)
       = Some [Finite (1 / 2)]
   \<and> refine_setup (tpe_single ''quniform'' 0 (3 / 4)) Map.empty (10 ^ 15) (10 ^ 4) =
     Inr (\<lparr>nids_to_optimize = [0], all_vals = [0], lbounds = [0], ubounds = [1], qlevels = [Some 1]\<rparr>,
          [3 / 4], [0 \<mapsto> [Finite 0]])
   \<and> \<not> any_below [3 / 4] [0] \<and> \<not> any_above [3 / 4] [1]
   \<and> (\<exists>out. refine_no_grad (tpe_single ''quniform'' 0 (3 / 4)) Map.empty (10 ^ 15) (10 ^ 4) = Inr out
         \<and> out 0 = Some [Finite 1])"
proof -
  let ?T = "tpe_single ''uniform'' (1 / 2) 2"
  have v: "any_above [2] [1]" by (simp add: any_above_def)
  have w: "\<not> any_below [3 / 4] [0]" "\<not> any_above [3 / 4] [1]"
    by (simp_all add: any_below_def any_above_def)
  have d: "distinct (map (post_below_vals (tpe_single ''quniform'' 0 (3 / 4))) [0])" by simp
  have s: "rec_eval_sample ?T Map.empty = ([(0, [1 / 2])], [0 \<mapsto> map Finite [1 / 2]])"
    by (simp add: tpe_single_def)
  have rec: "\<forall>p\<in>set (fst (rec_eval_sample ?T Map.empty)).
      [0 \<mapsto> [Finite (1 / 2)]] (post_below_vals ?T (fst p)) = Some (map Finite (snd p))"
    by (simp add: tpe_single_def)
  note f = refine_no_grad_fallback[OF refine_setup_example_outside]
  from f v
  have a: "refine_no_grad ?T Map.empty (10 ^ 15) (10 ^ 4) = Inr [0 \<mapsto> [Finite (1 / 2)]]"
    by simp
  from f[THEN conjunct2, THEN conjunct2, THEN conjunct1] rec
  have "\<forall>i<length [0::nat]. [0 \<mapsto> [Finite (1 / 2)]] (post_below_vals ?T ([0] ! i))
      = Some [Finite ([1 / 2] ! i)]"
    by simp
  then have c: "[0 \<mapsto> [Finite (1 / 2)]] (post_below_vals ?T 0) = Some [Finite (1 / 2)]"
    by simp
  from refine_no_grad_fallback[OF refine_setup_example_inside] w d
  obtain out where o: "refine_no_grad (tpe_single ''quniform'' 0 (3 / 4)) Map.empty (10 ^ 15) (10 ^ 4) = Inr out"
    "\<forall>i<length [0::nat]. out (post_below_vals (tpe_single ''quniform'' 0 (3 / 4)) ([0] ! i))
         = Some [snap_found ([3 / 4] ! i) ([Some 1] ! i)]"
    by auto
  from o(2) have "out 0 = Some [Finite 1]"
    by (simp add: tpe_single_def snap_found_def)
  with o(1) have b: "\<exists>out. refine_no_grad (tpe_single ''quniform'' 0 (3 / 4)) Map.empty (10 ^ 15) (10 ^ 4) = Inr out
         \<and> out 0 = Some [Finite 1]" by blast
  show ?thesis
    using refine_setup_example_outside refine_setup_example_inside v w a b c s by (intro conjI)
qed

text \<open>
  C10 (the code departs from the claim).  A candidate below a lower bound raises the
  \<open>ValueError\<close> of line 746.  A candidate above an upper bound does not raise the
  \<open>ValueError\<close> of line 752 but \<open>UnboundLocalError\<close>, for the variable \<open>lbi\<close> of that line.
  With \<open>MEDIUM = 10\<^sup>4\<close>: a normal draw of \<open>20000\<close>, a qnormal draw of \<open>-20000\<close>, a
  lognormal draw of \<open>10\<^sup>-\<^sup>1\<^sup>3\<close>.
\<close>

theorem refine_no_grad_ubound_unbound_local:
  "refine_no_grad (tpe_single ''normal'' 20000 0) Map.empty (10 ^ 15) (10 ^ 4)
     = Inl (UnboundLocalError ''lbi'')
   \<and> refine_no_grad (tpe_single ''qnormal'' (- 20000) 0) Map.empty (10 ^ 15) (10 ^ 4)
     = Inl (ValueError ''sampler did not respect lbound'')
   \<and> refine_no_grad (tpe_single ''lognormal'' (1 / 10 ^ 13) 0) Map.empty (10 ^ 15) (10 ^ 4)
     = Inl (ValueError ''sampler did not respect lbound'')"
  by (simp add: refine_no_grad_def refine_setup_def tpe_single_def bounds_step_def qlevel_of_def
      q_of_def bounds_append_def any_below_def any_above_def)

end
